theory Spec2Isabelle
  imports Complex_Main
begin

section \<open>The M3U8 extractor: data model\<close>

text \<open>
  The extractor of \<^verbatim>\<open>m3u8_extractor.py\<close> drives a browser, which is outside the
  program. Everything the browser decides is an explicit parameter here (an
  environment \<open>env\<close>); everything the program mutates is a field of the record
  \<open>extractor\<close>, passed in and returned. An exception is a value \<open>Inl e\<close>; since a
  Python exception does not undo the mutations made before it, every operation
  returns its outcome together with the state it leaves behind. The method
  \<^verbatim>\<open>log\<close> only prints, and the calls of it are left out.
\<close>

datatype exn =
    AttributeError string
  | ValueError string
  | ZeroDivisionError string
  | PlaywrightError string

record config =
  timeout :: int
  concurrency :: int
  retries :: int
  verbose :: bool
  m3u8_patterns :: "string list"
  headless :: bool

text \<open>The default patterns; \<open>CHR 0x5C\<close> is the backslash of the regular expression.\<close>

definition default_config :: config where
  "default_config =
     \<lparr>timeout = 20000, concurrency = 10, retries = 1, verbose = False,
      m3u8_patterns = [''playlist'' @ CHR 0x5C # ''.m3u8'',
                       ''index'' @ CHR 0x5C # ''.m3u8'',
                       CHR 0x5C # ''.m3u8''],
      headless = True\<rparr>"

text \<open>
  The two counters start at 0 and are only ever incremented, so they are natural
  numbers; the durations are Python floats (milliseconds), modelled as reals.
\<close>

record stats =
  successful :: nat
  failed :: nat
  total_time :: real
  average_time :: real

text \<open>The dictionary returned by \<^verbatim>\<open>extract_single\<close>.\<close>

record result =
  embedUrl :: string
  m3u8Url :: "string option"
  success :: bool
  time :: real
  error :: "string option"

datatype playwright = Playwright
datatype browser = Browser

text \<open>
  What the extractor does to the outside world, in the order it does it. The
  program keeps no such list; it is recorded to state which pages were opened,
  and when a group of attempts was awaited.
\<close>

datatype action =
    NewContext nat
  | Start string nat
  | Join
  | CloseContext nat
  | CloseBrowser
  | StopPlaywright

text \<open>
  The object state. \<open>playwright = None\<close> is the attribute \<^verbatim>\<open>self.playwright\<close> not
  being set at all: the constructor sets \<^verbatim>\<open>browser\<close>, \<^verbatim>\<open>contexts\<close> and \<^verbatim>\<open>stats\<close>
  only. \<open>attempt_no\<close> counts the calls of \<^verbatim>\<open>extract_single\<close> and \<open>trace\<close> lists the
  actions; both only serve to observe the program.
\<close>

record extractor =
  config :: config
  playwright :: "playwright option"
  browser :: "browser option"
  contexts :: "nat list"
  stats :: stats
  attempt_no :: nat
  trace :: "action list"

subsection \<open>The environment\<close>

text \<open>
  One page load, as the event loop delivers it:
  \<^item> \<open>open_error\<close>: \<^verbatim>\<open>context.new_page()\<close> raises with this message;
  \<^item> \<open>events\<close>: what the page and the timer would do, in order, were the page
    left open: the responses, the end of the navigation, and the timer of
    \<^verbatim>\<open>timeout\<close> ms firing (when the list names nothing that completes one of
    the three awaitables, the timer fires after its last event);
  \<^item> \<open>resume_lag\<close>: how many of the events that follow the one completing an
    awaitable are dispatched before \<^verbatim>\<open>extract_single\<close> resumes from
    \<^verbatim>\<open>asyncio.wait\<close>; the handler is still registered and runs in the turns of
    the event loop in between;
  \<^item> \<open>close_lag\<close>: how many further events are dispatched while
    \<^verbatim>\<open>await page.close()\<close> is pending; what comes after them is never delivered;
  \<^item> \<open>close_error\<close>: that \<^verbatim>\<open>page.close()\<close> raises with this message;
  \<^item> \<open>cleanup_error\<close>: the \<^verbatim>\<open>page.close()\<close> of the handler raises;
  \<^item> \<open>elapsed\<close>, \<open>elapsed_exc\<close>: the two readings of the clock, in ms.
\<close>

datatype event = Response string | GotoReturned | GotoRaised string | TimerFired

record page_run =
  open_error :: "string option"
  events :: "event list"
  resume_lag :: nat
  close_lag :: nat
  close_error :: "string option"
  cleanup_error :: "string option"
  elapsed :: real
  elapsed_exc :: real

datatype re_flag = NOFLAG | IGNORECASE

datatype startup = StartFails string | LaunchFails string | Launched

text \<open>
  \<open>re_search E p u f\<close> is \<^verbatim>\<open>re.search(p, u, f)\<close> finding a match; \<open>engine E\<close> says how
  starting Playwright and launching Chromium end; \<open>pages E n ctx url\<close> is the
  page load that the \<open>n\<close>-th call of \<^verbatim>\<open>extract_single\<close> meets.
\<close>

record env =
  re_search :: "string \<Rightarrow> string \<Rightarrow> re_flag \<Rightarrow> bool"
  engine :: startup
  pages :: "nat \<Rightarrow> nat \<Rightarrow> string \<Rightarrow> page_run"

section \<open>Construction, statistics\<close>

text \<open>
  The constructor lays the given options over the defaults; \<open>cfg\<close> is the
  dictionary after that merge, \<open>None\<close> the call without options.
\<close>

definition M3U8Extractor :: "config option \<Rightarrow> extractor" where
  "M3U8Extractor cfg =
     \<lparr>config = (case cfg of None \<Rightarrow> default_config | Some c \<Rightarrow> c),
      playwright = None, browser = None, contexts = [],
      stats = \<lparr>successful = 0, failed = 0, total_time = 0, average_time = 0\<rparr>,
      attempt_no = 0, trace = []\<rparr>"

definition get_stats :: "extractor \<Rightarrow> stats" where
  "get_stats s = stats s"

definition reset_stats :: "extractor \<Rightarrow> extractor" where
  "reset_stats s =
     s\<lparr>stats := \<lparr>successful = 0, failed = 0, total_time = 0, average_time = 0\<rparr>\<rparr>"

text \<open>Lines 152 to 154: the three assignments of a successful attempt.\<close>

definition record_success :: "real \<Rightarrow> stats \<Rightarrow> stats" where
  "record_success ms st =
     (let st1 = st\<lparr>successful := successful st + 1\<rparr>;
          st2 = st1\<lparr>total_time := total_time st1 + ms\<rparr>
      in st2\<lparr>average_time := total_time st2 / real (successful st2)\<rparr>)"

text \<open>Lines 164 and 175: the one assignment of a failed attempt.\<close>

definition record_failure :: "stats \<Rightarrow> stats" where
  "record_failure st = st\<lparr>failed := failed st + 1\<rparr>"

section \<open>One attempt\<close>

text \<open>
  The future \<^verbatim>\<open>m3u8_future\<close> is pending, holds a result, or was cancelled; the
  last two count as done.
\<close>

datatype future = Pending | Resolved string | Cancelled

record attempt =
  found_m3u8 :: "string option"
  m3u8_future :: future

definition new_attempt :: attempt where
  "new_attempt = \<lparr>found_m3u8 = None, m3u8_future = Pending\<rparr>"

text \<open>Python's truth value of \<^verbatim>\<open>found_m3u8\<close>: neither \<^verbatim>\<open>None\<close> nor the empty string.\<close>

definition truthy :: "string option \<Rightarrow> bool" where
  "truthy f = (case f of None \<Rightarrow> False | Some u \<Rightarrow> u \<noteq> [])"

definition is_done :: "future \<Rightarrow> bool" where
  "is_done f = (f \<noteq> Pending)"

text \<open>The \<^verbatim>\<open>for pattern in ...\<close> loop of the handler, left at the first match.\<close>

fun match_patterns :: "env \<Rightarrow> string list \<Rightarrow> string \<Rightarrow> attempt \<Rightarrow> attempt" where
  "match_patterns E [] url a = a"
| "match_patterns E (pattern # ps) url a =
     (if re_search E pattern url IGNORECASE
      then a\<lparr>found_m3u8 := Some url,
             m3u8_future := (if \<not> is_done (m3u8_future a) then Resolved url
                             else m3u8_future a)\<rparr>
      else match_patterns E ps url a)"

definition handle_response :: "env \<Rightarrow> config \<Rightarrow> attempt \<Rightarrow> string \<Rightarrow> attempt" where
  "handle_response E cfg a url =
     (if truthy (found_m3u8 a) then a
      else match_patterns E (m3u8_patterns cfg) url a)"

text \<open>
  \<^verbatim>\<open>asyncio.wait(..., return_when=FIRST_COMPLETED)\<close> over the future, the timer and
  the navigation. The wait is decided when the first of the three is done; an
  exception of the navigation task stays inside the task, and \<^verbatim>\<open>wait\<close> returns
  normally. \<open>race\<close> gives the attempt at that moment together with the events that
  are still to come.
\<close>

fun race :: "env \<Rightarrow> config \<Rightarrow> event list \<Rightarrow> attempt \<Rightarrow> attempt \<times> event list" where
  "race E cfg [] a = (a, [])"
| "race E cfg (Response url # es) a =
     (let a' = handle_response E cfg a url
      in if is_done (m3u8_future a') then (a', es) else race E cfg es a')"
| "race E cfg (GotoReturned # es) a = (a, es)"
| "race E cfg (GotoRaised msg # es) a = (a, es)"
| "race E cfg (TimerFired # es) a = (a, es)"

text \<open>The responses among some events: only they call the handler.\<close>

fun responses_of :: "event list \<Rightarrow> string list" where
  "responses_of [] = []"
| "responses_of (Response url # es) = url # responses_of es"
| "responses_of (GotoReturned # es) = responses_of es"
| "responses_of (GotoRaised msg # es) = responses_of es"
| "responses_of (TimerFired # es) = responses_of es"

text \<open>\<^verbatim>\<open>for task in pending: task.cancel()\<close>, as far as the future is concerned.\<close>

definition cancel_pending :: "attempt \<Rightarrow> attempt" where
  "cancel_pending a =
     (if is_done (m3u8_future a) then a else a\<lparr>m3u8_future := Cancelled\<rparr>)"

text \<open>
  From the call of \<^verbatim>\<open>page.on\<close> to the test of \<^verbatim>\<open>found_m3u8\<close> at line 151. The handler
  stays registered all the time: once the wait is decided, it still receives
  the responses dispatched before \<^verbatim>\<open>extract_single\<close> resumes (line 138), then the
  pending awaitables are cancelled (line 144), and it receives the responses
  dispatched while the page is being closed (line 149).
\<close>

definition observe :: "env \<Rightarrow> config \<Rightarrow> page_run \<Rightarrow> attempt" where
  "observe E cfg pr =
     (case race E cfg (events pr) new_attempt of
        (a, rest) \<Rightarrow>
          (let a1 = foldl (handle_response E cfg) a
                      (responses_of (take (resume_lag pr) rest));
               a2 = cancel_pending a1
           in foldl (handle_response E cfg) a2
                (responses_of (take (close_lag pr) (drop (resume_lag pr) rest)))))"

definition extract_single ::
  "env \<Rightarrow> string \<Rightarrow> nat \<Rightarrow> extractor \<Rightarrow> (exn + result) \<times> extractor" where
  "extract_single E embed_url ctx s0 =
     (let pr = pages E (attempt_no s0) ctx embed_url;
          s = s0\<lparr>attempt_no := attempt_no s0 + 1\<rparr>
      in case open_error pr of
           Some msg \<Rightarrow> (Inl (PlaywrightError msg), s)
         | None \<Rightarrow>
            (let a = observe E (config s) pr
             in case close_error pr of
                  None \<Rightarrow>
                    (if truthy (found_m3u8 a)
                     then (Inr \<lparr>embedUrl = embed_url, m3u8Url = found_m3u8 a,
                                success = True, time = elapsed pr, error = None\<rparr>,
                           s\<lparr>stats := record_success (elapsed pr) (stats s)\<rparr>)
                     else (Inr \<lparr>embedUrl = embed_url, m3u8Url = None,
                                success = False, time = elapsed pr,
                                error = Some ''M3U8 URL not found within timeout''\<rparr>,
                           s\<lparr>stats := record_failure (stats s)\<rparr>))
                | Some msg \<Rightarrow>
                    (let s' = s\<lparr>stats := record_failure (stats s)\<rparr>
                     in case cleanup_error pr of
                          Some msg' \<Rightarrow> (Inl (PlaywrightError msg'), s')
                        | None \<Rightarrow>
                            (Inr \<lparr>embedUrl = embed_url, m3u8Url = None,
                                  success = False, time = elapsed_exc pr,
                                  error = Some msg\<rparr>, s'))))"

section \<open>The pool\<close>

text \<open>
  Starting Playwright or launching the browser may fail; the exception leaves
  \<^verbatim>\<open>initialize\<close> with what was assigned before it. The new contexts are named by
  their position in the pool.
\<close>

definition initialize :: "env \<Rightarrow> extractor \<Rightarrow> (exn + unit) \<times> extractor" where
  "initialize E s =
     (case engine E of
        StartFails msg \<Rightarrow> (Inl (PlaywrightError msg), s)
      | LaunchFails msg \<Rightarrow> (Inl (PlaywrightError msg), s\<lparr>playwright := Some Playwright\<rparr>)
      | Launched \<Rightarrow>
          (let n = length (contexts s);
               new = [n ..< n + nat (concurrency (config s))]
           in (Inr (),
               s\<lparr>playwright := Some Playwright, browser := Some Browser,
                 contexts := contexts s @ new,
                 trace := trace s @ map NewContext new\<rparr>)))"

text \<open>
  \<^verbatim>\<open>close\<close> reads \<^verbatim>\<open>self.playwright\<close> without a test; \<open>AttributeError\<close> carries the name
  of the attribute that is not there.
\<close>

definition close :: "extractor \<Rightarrow> (exn + unit) \<times> extractor" where
  "close s =
     (let s1 = s\<lparr>trace := trace s @ map CloseContext (contexts s)\<rparr>;
          s2 = (case browser s1 of
                  None \<Rightarrow> s1
                | Some b \<Rightarrow> s1\<lparr>trace := trace s1 @ [CloseBrowser]\<rparr>)
      in case playwright s2 of
           None \<Rightarrow>
             (Inl (AttributeError ''playwright''), s2)
         | Some p \<Rightarrow>
             (Inr (), s2\<lparr>trace := trace s2 @ [StopPlaywright],
                         contexts := [], browser := None\<rparr>))"

section \<open>The batch scheduler\<close>

text \<open>
  The loop that builds the tasks of one group: \<^verbatim>\<open>idx % len(self.contexts)\<close> raises
  on an empty pool, before any task has started.
\<close>

definition make_tasks :: "string list \<Rightarrow> extractor \<Rightarrow> exn + (string \<times> nat) list" where
  "make_tasks batch s =
     (if batch \<noteq> [] \<and> contexts s = []
      then Inl (ZeroDivisionError ''integer modulo by zero'')
      else Inr (map (\<lambda>(idx, url). (url, contexts s ! (idx mod length (contexts s))))
                  (enumerate 0 batch)))"

text \<open>
  The attempts of a group run interleaved. Each touches the shared state only in
  the block that updates the counters, which no other attempt interrupts, and the
  counters do not depend on the order of these blocks; here they run in the order
  of dispatch.
\<close>

fun run_tasks ::
  "env \<Rightarrow> (string \<times> nat) list \<Rightarrow> extractor \<Rightarrow> (exn + result) list \<times> extractor" where
  "run_tasks E [] s = ([], s)"
| "run_tasks E ((url, ctx) # ts) s =
     (case extract_single E url ctx s of
        (r, s1) \<Rightarrow> (case run_tasks E ts s1 of (rs, s2) \<Rightarrow> (r # rs, s2)))"

text \<open>\<^verbatim>\<open>asyncio.gather\<close>: the results in the order of the tasks, or the first exception.\<close>

fun gather :: "(exn + 'a) list \<Rightarrow> exn + 'a list" where
  "gather [] = Inr []"
| "gather (Inl e # rs) = Inl e"
| "gather (Inr r # rs) = (case gather rs of Inl e \<Rightarrow> Inl e | Inr xs \<Rightarrow> Inr (r # xs))"

text \<open>
  The body of the loop over the groups. \<open>Join\<close> marks the return of \<^verbatim>\<open>gather\<close>, when
  every attempt of the group has finished; when \<^verbatim>\<open>gather\<close> raises, the other
  attempts of the group are still running.
\<close>

definition dispatch :: "(string \<times> nat) list \<Rightarrow> action list" where
  "dispatch tasks = map (\<lambda>(url, ctx). Start url ctx) tasks"

definition run_group ::
  "env \<Rightarrow> string list \<Rightarrow> extractor \<Rightarrow> (exn + result list) \<times> extractor" where
  "run_group E batch s =
     (case make_tasks batch s of
        Inl e \<Rightarrow> (Inl e, s)
      | Inr tasks \<Rightarrow>
          (case run_tasks E tasks (s\<lparr>trace := trace s @ dispatch tasks\<rparr>) of
             (outcomes, s1) \<Rightarrow>
               (case gather outcomes of
                  Inl e \<Rightarrow> (Inl e, s1)
                | Inr batch_results \<Rightarrow> (Inr batch_results, s1\<lparr>trace := trace s1 @ [Join]\<rparr>))))"

text \<open>
  \<^verbatim>\<open>for i in range(0, len(embed_urls), concurrency)\<close> with a positive step \<open>c\<close>;
  the test \<open>c = 0\<close> is never true where the loop is entered and makes the
  recursion well-founded.
\<close>

function batch_loop ::
  "env \<Rightarrow> nat \<Rightarrow> string list \<Rightarrow> nat \<Rightarrow> result list \<Rightarrow> extractor
     \<Rightarrow> (exn + result list) \<times> extractor" where
  "batch_loop E c embed_urls i results s =
     (if c = 0 \<or> length embed_urls \<le> i then (Inr results, s)
      else case run_group E (take c (drop i embed_urls)) s of
             (Inl e, s') \<Rightarrow> (Inl e, s')
           | (Inr batch_results, s') \<Rightarrow>
               batch_loop E c embed_urls (i + c) (results @ batch_results) s')"
  by pat_completeness auto
termination
  by (relation "measure (\<lambda>(E, c, embed_urls, i, results, s). length embed_urls - i)") auto

declare batch_loop.simps [simp del]

text \<open>\<^verbatim>\<open>range\<close> raises on the step 0 and is empty on a negative step.\<close>

definition extract_batch ::
  "env \<Rightarrow> string list \<Rightarrow> extractor \<Rightarrow> (exn + result list) \<times> extractor" where
  "extract_batch E embed_urls s0 =
     (case (if browser s0 = None then initialize E s0 else (Inr (), s0)) of
        (Inl e, s) \<Rightarrow> (Inl e, s)
      | (Inr u, s) \<Rightarrow>
          (let c = concurrency (config s)
           in if c = 0 then (Inl (ValueError ''range() arg 3 must not be zero''), s)
              else if c < 0 then (Inr [], s)
              else batch_loop E (nat c) embed_urls 0 [] s))"

section \<open>The retry coordinator\<close>

text \<open>The inner loop of the merge: one retry result against every entry.\<close>

fun replace_matching :: "result \<Rightarrow> result list \<Rightarrow> result list" where
  "replace_matching retry_result [] = []"
| "replace_matching retry_result (r # rs) =
     (if embedUrl r = embedUrl retry_result \<and> success retry_result then retry_result else r)
       # replace_matching retry_result rs"

text \<open>The outer loop: the retry results, in their order.\<close>

fun merge_retries :: "result list \<Rightarrow> result list \<Rightarrow> result list" where
  "merge_retries results [] = results"
| "merge_retries results (retry_result # rest) =
     merge_retries (replace_matching retry_result results) rest"

text \<open>
  The method \<^verbatim>\<open>extract\<close>; the name is reserved in Isabelle, hence \<open>extract_retry\<close>.
\<close>

definition extract_retry ::
  "env \<Rightarrow> string list \<Rightarrow> extractor \<Rightarrow> (exn + result list) \<times> extractor" where
  "extract_retry E embed_urls s =
     (case extract_batch E embed_urls s of
        (Inl e, s1) \<Rightarrow> (Inl e, s1)
      | (Inr results, s1) \<Rightarrow>
          (if retries (config s1) > 0
           then (let failed = filter (\<lambda>r. \<not> success r) results
                 in if failed \<noteq> []
                    then (case extract_batch E (map embedUrl failed) s1 of
                            (Inl e, s2) \<Rightarrow> (Inl e, s2)
                          | (Inr retry_results, s2) \<Rightarrow>
                              (Inr (merge_retries results retry_results), s2))
                    else (Inr results, s1))
           else (Inr results, s1)))"

text \<open>
  The convenience function: \<^verbatim>\<open>close\<close> after the extraction, and \<^verbatim>\<open>close\<close> again in
  the handler that re-raises.
\<close>

definition reraise_after_close ::
  "exn \<Rightarrow> extractor \<Rightarrow> (exn + result list) \<times> extractor" where
  "reraise_after_close err s =
     (case close s of
        (Inl e, s') \<Rightarrow> (Inl e, s')
      | (Inr u, s') \<Rightarrow> (Inl err, s'))"

definition extract_m3u8 ::
  "env \<Rightarrow> string list \<Rightarrow> config option \<Rightarrow> (exn + result list) \<times> extractor" where
  "extract_m3u8 E embed_urls cfg =
     (case extract_retry E embed_urls (M3U8Extractor cfg) of
        (Inl err, s1) \<Rightarrow> reraise_after_close err s1
      | (Inr results, s1) \<Rightarrow>
          (case close s1 of
             (Inl err, s2) \<Rightarrow> reraise_after_close err s2
           | (Inr u, s2) \<Rightarrow> (Inr results, s2)))"

section \<open>Observing a run\<close>

subsection \<open>Results and statistics\<close>

definition is_success :: "result \<Rightarrow> bool" where
  "is_success r = (success r \<and> m3u8Url r \<noteq> None \<and> error r = None)"

definition is_failure :: "result \<Rightarrow> bool" where
  "is_failure r = (\<not> success r \<and> m3u8Url r = None \<and> error r \<noteq> None)"

definition stats_inv :: "stats \<Rightarrow> bool" where
  "stats_inv st =
     (if successful st = 0 then average_time st = 0
      else average_time st = total_time st / real (successful st))"

subsection \<open>What the handler sees\<close>

text \<open>A URL matches when \<^verbatim>\<open>re.search\<close> with \<^verbatim>\<open>re.IGNORECASE\<close> succeeds on some pattern.\<close>

definition matches :: "env \<Rightarrow> config \<Rightarrow> string \<Rightarrow> bool" where
  "matches E cfg url = list_ex (\<lambda>p. re_search E p url IGNORECASE) (m3u8_patterns cfg)"

text \<open>
  The number of events up to and including the one that decides the wait: the
  first response that matches, the end of the navigation or the timer.
\<close>

fun decided_at :: "(string \<Rightarrow> bool) \<Rightarrow> event list \<Rightarrow> nat" where
  "decided_at m [] = 0"
| "decided_at m (Response url # es) = (if m url then 1 else Suc (decided_at m es))"
| "decided_at m (GotoReturned # es) = 1"
| "decided_at m (GotoRaised msg # es) = 1"
| "decided_at m (TimerFired # es) = 1"

text \<open>
  The responses that the handler receives during an attempt, in order: those up
  to the decision and those dispatched in the two lags after it.
\<close>

definition received :: "env \<Rightarrow> config \<Rightarrow> page_run \<Rightarrow> string list" where
  "received E cfg pr =
     responses_of
       (take (decided_at (matches E cfg) (events pr) + resume_lag pr + close_lag pr)
          (events pr))"

subsection \<open>What the scheduler does\<close>

text \<open>
  The number of attempts in flight after a trace, and the largest number in
  flight at any moment of it, starting from \<open>n\<close>: \<open>Start\<close> adds one attempt, \<open>Join\<close>
  is the moment when all of them have finished.
\<close>

fun load_from :: "nat \<Rightarrow> action list \<Rightarrow> nat" where
  "load_from n [] = n"
| "load_from n (Start url ctx # t) = load_from (Suc n) t"
| "load_from n (Join # t) = load_from 0 t"
| "load_from n (NewContext k # t) = load_from n t"
| "load_from n (CloseContext k # t) = load_from n t"
| "load_from n (CloseBrowser # t) = load_from n t"
| "load_from n (StopPlaywright # t) = load_from n t"

fun peak_from :: "nat \<Rightarrow> action list \<Rightarrow> nat" where
  "peak_from n [] = n"
| "peak_from n (Start url ctx # t) = max n (peak_from (Suc n) t)"
| "peak_from n (Join # t) = max n (peak_from 0 t)"
| "peak_from n (NewContext k # t) = peak_from n t"
| "peak_from n (CloseContext k # t) = peak_from n t"
| "peak_from n (CloseBrowser # t) = peak_from n t"
| "peak_from n (StopPlaywright # t) = peak_from n t"

text \<open>The URLs for which an attempt was started, in order.\<close>

fun started :: "action list \<Rightarrow> string list" where
  "started [] = []"
| "started (Start url ctx # t) = url # started t"
| "started (Join # t) = started t"
| "started (NewContext k # t) = started t"
| "started (CloseContext k # t) = started t"
| "started (CloseBrowser # t) = started t"
| "started (StopPlaywright # t) = started t"

text \<open>
  The groups of a trace: the URLs started between one \<open>Join\<close> and the next;
  \<open>cur\<close> holds the group that is open.
\<close>

fun groups_of :: "action list \<Rightarrow> string list \<Rightarrow> string list list" where
  "groups_of [] cur = (if cur = [] then [] else [cur])"
| "groups_of (Start url ctx # t) cur = groups_of t (cur @ [url])"
| "groups_of (Join # t) cur = cur # groups_of t []"
| "groups_of (NewContext k # t) cur = groups_of t cur"
| "groups_of (CloseContext k # t) cur = groups_of t cur"
| "groups_of (CloseBrowser # t) cur = groups_of t cur"
| "groups_of (StopPlaywright # t) cur = groups_of t cur"

text \<open>
  The partition in the words of the specification: consecutive groups of size
  \<open>c\<close>, the last one holding what is left.
\<close>

function spec_groups :: "nat \<Rightarrow> 'a list \<Rightarrow> 'a list list" where
  "spec_groups c xs =
     (if c = 0 \<or> xs = [] then [] else take c xs # spec_groups c (drop c xs))"
  by pat_completeness auto
termination
  by (relation "measure (\<lambda>(c, xs). length xs)") auto

declare spec_groups.simps [simp del]

text \<open>
  The entry that the merge leaves at a position: the last successful retry
  result for the URL of the entry, or the entry itself when there is none.
\<close>

definition merged_entry :: "result list \<Rightarrow> result \<Rightarrow> result" where
  "merged_entry retry_results r =
     (case find (\<lambda>x. success x \<and> embedUrl x = embedUrl r) (rev retry_results) of
        None \<Rightarrow> r
      | Some x \<Rightarrow> x)"

section \<open>Example environments\<close>

text \<open>
  A regular-expression engine for patterns without metacharacters: the pattern
  occurs in the URL, letters compared without case under \<open>IGNORECASE\<close>.
\<close>

definition lower :: "char \<Rightarrow> char" where
  "lower c =
     (case map_of (zip ''ABCDEFGHIJKLMNOPQRSTUVWXYZ'' ''abcdefghijklmnopqrstuvwxyz'') c of
        None \<Rightarrow> c
      | Some d \<Rightarrow> d)"

fun starts_with :: "string \<Rightarrow> string \<Rightarrow> bool" where
  "starts_with [] u = True"
| "starts_with (c # p) [] = False"
| "starts_with (c # p) (d # u) = (c = d \<and> starts_with p u)"

fun occurs_in :: "string \<Rightarrow> string \<Rightarrow> bool" where
  "occurs_in p [] = (p = [])"
| "occurs_in p (c # u) = (starts_with p (c # u) \<or> occurs_in p u)"

definition literal_search :: "string \<Rightarrow> string \<Rightarrow> re_flag \<Rightarrow> bool" where
  "literal_search p u f =
     (case f of
        IGNORECASE \<Rightarrow> occurs_in (map lower p) (map lower u)
      | NOFLAG \<Rightarrow> occurs_in p u)"

text \<open>A page that settles without a manifest, and one that loads a playlist.\<close>

definition quiet :: page_run where
  "quiet =
     \<lparr>open_error = None, events = [Response ''a.js'', GotoReturned],
      resume_lag = 0, close_lag = 0, close_error = None, cleanup_error = None, elapsed = 1000, elapsed_exc = 1000\<rparr>"

definition streaming :: page_run where
  "streaming =
     quiet\<lparr>events := [Response ''a.js'', Response ''X.M3U8'', Response ''y.m3u8'',
                      GotoReturned],
           elapsed := 500\<rparr>"

text \<open>
  The page settles, a script is answered while \<^verbatim>\<open>extract_single\<close> resumes, and the
  playlist would be answered after that and before the timer.
\<close>

definition late_stream :: page_run where
  "late_stream =
     quiet\<lparr>events := [GotoReturned, Response ''a.js'', Response ''x.m3u8'', TimerFired],
           resume_lag := 1\<rparr>"

text \<open>The same page, with the playlist answered while the page is being closed.\<close>

definition prompt_stream :: page_run where
  "prompt_stream = late_stream\<lparr>close_lag := 1\<rparr>"

definition unopened :: page_run where
  "unopened = quiet\<lparr>open_error := Some ''Target closed''\<rparr>"

text \<open>The name of the host does not resolve: the navigation raises.\<close>

definition dns_failure :: page_run where
  "dns_failure = quiet\<lparr>events := [GotoRaised ''net::ERR_NAME_NOT_RESOLVED'']\<rparr>"

definition cfg2 :: config where
  "cfg2 = default_config\<lparr>concurrency := 2, m3u8_patterns := [''.m3u8'']\<rparr>"

text \<open>Every page fails on the first two attempts and streams afterwards.\<close>

definition flaky :: env where
  "flaky =
     \<lparr>re_search = literal_search, engine = Launched,
      pages = (\<lambda>n ctx url. if n < 2 then quiet else streaming)\<rparr>"

text \<open>Only the second attempt fails; the elapsed time tells the attempts apart.\<close>

definition second_fails :: env where
  "second_fails =
     \<lparr>re_search = literal_search, engine = Launched,
      pages = (\<lambda>n ctx url. if n = 1 then quiet else streaming\<lparr>elapsed := 500 + real n\<rparr>)\<rparr>"

definition always :: "page_run \<Rightarrow> env" where
  "always pr = \<lparr>re_search = literal_search, engine = Launched, pages = (\<lambda>n ctx url. pr)\<rparr>"

section \<open>One attempt: the handler and the race\<close>

lemma record_success_inv: "stats_inv (record_success ms st)"
  by (simp add: stats_inv_def record_success_def Let_def)

lemma record_failure_inv: "stats_inv st \<Longrightarrow> stats_inv (record_failure st)"
  by (simp add: stats_inv_def record_failure_def)

lemma extract_single_stats_inv:
  "stats_inv (stats s) \<Longrightarrow> stats_inv (stats (snd (extract_single E url ctx s)))"
  by (simp add: extract_single_def Let_def record_success_inv record_failure_inv
        split: option.splits)

lemma extract_single_frame:
  "config (snd (extract_single E url ctx s)) = config s"
  "trace (snd (extract_single E url ctx s)) = trace s"
  "contexts (snd (extract_single E url ctx s)) = contexts s"
  "browser (snd (extract_single E url ctx s)) = browser s"
  "playwright (snd (extract_single E url ctx s)) = playwright s"
  "attempt_no (snd (extract_single E url ctx s)) = Suc (attempt_no s)"
  by (simp_all add: extract_single_def Let_def split: option.splits)

lemma extract_single_url:
  "fst (extract_single E url ctx s) = Inr r \<Longrightarrow> embedUrl r = url"
  by (auto simp: extract_single_def Let_def split: option.splits if_splits)

lemma truthy_Some: "truthy f \<Longrightarrow> \<exists>u. f = Some u"
  by (cases f) (simp_all add: truthy_def)

lemma extract_single_shape:
  "fst (extract_single E url ctx s) = Inr r \<Longrightarrow> is_success r \<noteq> is_failure r"
  by (auto simp: extract_single_def Let_def is_success_def is_failure_def
        split: option.splits if_splits dest: truthy_Some)

lemma match_patterns_none:
  "\<not> list_ex (\<lambda>p. re_search E p url IGNORECASE) ps \<Longrightarrow> match_patterns E ps url a = a"
  by (induction ps) auto

lemma match_patterns_some:
  "list_ex (\<lambda>p. re_search E p url IGNORECASE) ps \<Longrightarrow>
   match_patterns E ps url a =
     a\<lparr>found_m3u8 := Some url,
       m3u8_future := (if \<not> is_done (m3u8_future a) then Resolved url else m3u8_future a)\<rparr>"
  by (induction ps) auto

lemma handle_response_found:
  "found_m3u8 (handle_response E cfg a url) =
     (if truthy (found_m3u8 a) then found_m3u8 a
      else if matches E cfg url then Some url else found_m3u8 a)"
  by (simp add: handle_response_def matches_def match_patterns_none match_patterns_some)

lemma handle_response_future:
  "m3u8_future (handle_response E cfg a url) =
     (if \<not> truthy (found_m3u8 a) \<and> matches E cfg url \<and> \<not> is_done (m3u8_future a)
      then Resolved url else m3u8_future a)"
  by (cases "matches E cfg url")
     (auto simp: handle_response_def matches_def match_patterns_none match_patterns_some)

lemma handle_response_write_once:
  "truthy (found_m3u8 a) \<Longrightarrow> handle_response E cfg a url = a"
  by (simp add: handle_response_def)

lemma handle_response_no_match:
  "\<not> matches E cfg url \<Longrightarrow> handle_response E cfg a url = a"
  by (simp add: handle_response_def matches_def match_patterns_none)

lemma fold_handle_found:
  "[] \<notin> set urls \<Longrightarrow>
   found_m3u8 (foldl (handle_response E cfg) a urls) =
     (if truthy (found_m3u8 a) then found_m3u8 a
      else case find (matches E cfg) urls of None \<Rightarrow> found_m3u8 a | Some u \<Rightarrow> Some u)"
proof (induction urls arbitrary: a)
  case Nil
  then show ?case by simp
next
  case (Cons u urls)
  then have u: "u \<noteq> []" and rest: "[] \<notin> set urls" by auto
  show ?case
    using Cons.IH [OF rest, of "handle_response E cfg a u"] u
    by (auto simp: handle_response_found truthy_def split: option.splits)
qed

lemma new_attempt_simps [simp]:
  "found_m3u8 new_attempt = None" "m3u8_future new_attempt = Pending"
  by (simp_all add: new_attempt_def)

lemma truthy_None [simp]: "\<not> truthy None"
  by (simp add: truthy_def)

lemma find_append:
  "find P (xs @ ys) = (case find P xs of None \<Rightarrow> find P ys | Some x \<Rightarrow> Some x)"
  by (induction xs) simp_all

lemma find_SomeD: "find P xs = Some y \<Longrightarrow> y \<in> set xs \<and> P y"
  by (induction xs) (auto split: if_splits)

lemma fold_no_match:
  "\<forall>u\<in>set urls. \<not> matches E cfg u \<Longrightarrow> foldl (handle_response E cfg) a urls = a"
  by (induction urls) (simp_all add: handle_response_no_match)

text \<open>What the handler leaves in the slot depends on the slot alone.\<close>

lemma fold_found_cong:
  "found_m3u8 a = found_m3u8 b \<Longrightarrow>
   found_m3u8 (foldl (handle_response E cfg) a urls)
     = found_m3u8 (foldl (handle_response E cfg) b urls)"
proof (induction urls arbitrary: a b)
  case Nil
  then show ?case by simp
next
  case (Cons u urls)
  have "found_m3u8 (handle_response E cfg a u) = found_m3u8 (handle_response E cfg b u)"
    using Cons.prems by (simp add: handle_response_found)
  from Cons.IH [OF this] show ?case by simp
qed

lemma responses_of_append: "responses_of (xs @ ys) = responses_of xs @ responses_of ys"
  by (induction xs rule: responses_of.induct) simp_all

lemma responses_of_map [simp]: "responses_of (map Response us) = us"
  by (induction us) simp_all

text \<open>
  The race, started before anything was found: the handler has received the
  responses up to the decision, and the events after the decision remain.
\<close>

lemma race_fold:
  "found_m3u8 a = None \<Longrightarrow> m3u8_future a = Pending \<Longrightarrow>
   race E cfg es a =
     (foldl (handle_response E cfg) a (responses_of (take (decided_at (matches E cfg) es) es)),
      drop (decided_at (matches E cfg) es) es)"
proof (induction es arbitrary: a)
  case Nil
  then show ?case by simp
next
  case (Cons e es)
  show ?case
  proof (cases e)
    case (Response u)
    show ?thesis
    proof (cases "matches E cfg u")
      case True
      then have "handle_response E cfg a u = a\<lparr>found_m3u8 := Some u, m3u8_future := Resolved u\<rparr>"
        using Cons.prems
        by (simp add: handle_response_def matches_def match_patterns_some is_done_def)
      then show ?thesis using True Response by (simp add: is_done_def)
    next
      case False
      then have "handle_response E cfg a u = a" by (rule handle_response_no_match)
      then show ?thesis
        using False Response Cons.prems Cons.IH [of a] by (simp add: is_done_def)
    qed
  qed simp_all
qed

lemma race_no_match:
  "\<forall>u\<in>set pre. \<not> matches E cfg u \<Longrightarrow> \<not> is_done (m3u8_future a) \<Longrightarrow>
   race E cfg (map Response pre @ es) a = race E cfg es a"
  by (induction pre) (simp_all add: Let_def handle_response_no_match)

lemma race_first_match:
  assumes "\<forall>v\<in>set pre. \<not> matches E cfg v" "matches E cfg u"
  shows "race E cfg (map Response pre @ Response u # post) new_attempt
           = (new_attempt\<lparr>found_m3u8 := Some u, m3u8_future := Resolved u\<rparr>, post)"
proof -
  have "handle_response E cfg new_attempt u
          = new_attempt\<lparr>found_m3u8 := Some u, m3u8_future := Resolved u\<rparr>"
    using assms(2)
    by (simp add: handle_response_def matches_def match_patterns_some is_done_def)
  then show ?thesis
    using race_no_match [OF assms(1), of new_attempt] by (simp add: is_done_def)
qed

text \<open>The slot after an attempt is the slot after the handler has gone through \<open>received\<close>.\<close>

lemma observe_fold:
  "found_m3u8 (observe E cfg pr)
     = found_m3u8 (foldl (handle_response E cfg) new_attempt (received E cfg pr))"
proof -
  let ?h = "handle_response E cfg"
  let ?d = "decided_at (matches E cfg) (events pr)"
  let ?r0 = "responses_of (take ?d (events pr))"
  let ?rest = "drop ?d (events pr)"
  let ?r1 = "responses_of (take (resume_lag pr) ?rest)"
  let ?r2 = "responses_of (take (close_lag pr) (drop (resume_lag pr) ?rest))"
  let ?a1 = "foldl ?h (foldl ?h new_attempt ?r0) ?r1"
  have r: "race E cfg (events pr) new_attempt = (foldl ?h new_attempt ?r0, ?rest)"
    by (rule race_fold) simp_all
  have "take (?d + resume_lag pr + close_lag pr) (events pr)
          = take (?d + resume_lag pr) (events pr)
              @ take (close_lag pr) (drop (?d + resume_lag pr) (events pr))"
    by (rule take_add)
  moreover have "take (?d + resume_lag pr) (events pr)
                   = take ?d (events pr) @ take (resume_lag pr) ?rest"
    by (rule take_add)
  moreover have "drop (?d + resume_lag pr) (events pr) = drop (resume_lag pr) ?rest"
    by (simp add: add.commute)
  ultimately have "take (?d + resume_lag pr + close_lag pr) (events pr)
          = take ?d (events pr) @ take (resume_lag pr) ?rest
              @ take (close_lag pr) (drop (resume_lag pr) ?rest)"
    by simp
  then have rec: "received E cfg pr = ?r0 @ ?r1 @ ?r2"
    by (simp add: received_def responses_of_append)
  have "found_m3u8 (cancel_pending ?a1) = found_m3u8 ?a1"
    by (simp add: cancel_pending_def)
  from fold_found_cong [OF this]
  have "found_m3u8 (foldl ?h (cancel_pending ?a1) ?r2) = found_m3u8 (foldl ?h ?a1 ?r2)" .
  then show ?thesis
    by (simp add: observe_def r rec Let_def)
qed

lemma observe_found:
  assumes "[] \<notin> set (received E cfg pr)"
  shows "found_m3u8 (observe E cfg pr) = find (matches E cfg) (received E cfg pr)"
  using fold_handle_found [OF assms, of E cfg new_attempt]
  by (simp add: observe_fold split: option.splits)

lemma decided_at_navigation:
  "\<forall>u\<in>set pre. \<not> m u \<Longrightarrow> decided_at m (map Response pre @ GotoReturned # post) = Suc (length pre)"
  by (induction pre) simp_all

text \<open>When the navigation ends first, the handler receives what the lags let through.\<close>

lemma received_navigation:
  assumes "events pr = map Response pre @ GotoReturned # post"
    and "\<forall>u\<in>set pre. \<not> matches E cfg u"
  shows "received E cfg pr = pre @ responses_of (take (resume_lag pr + close_lag pr) post)"
  using assms decided_at_navigation [of pre "matches E cfg" post]
  by (simp add: received_def responses_of_append)

section \<open>The result of one attempt\<close>

text \<open>
  C2, as the code has it. \<^verbatim>\<open>extract_single\<close> opens the page before its \<^verbatim>\<open>try\<close> and
  closes it again inside the handler, so an exception of either call reaches
  the caller. Whenever the page opens and one of the two \<^verbatim>\<open>page.close()\<close> calls
  returns, the attempt returns exactly one result for its URL, which is either
  a success (flag set, a manifest URL, no error) or a failure (flag clear, no
  manifest URL, an error text) and never both; this holds whatever the
  navigation does, an exception of the navigation included, since the list of
  events is arbitrary.
\<close>

theorem extract_single_result:
  assumes "open_error (pages E (attempt_no s) ctx url) = None"
    and "close_error (pages E (attempt_no s) ctx url) = None
         \<or> cleanup_error (pages E (attempt_no s) ctx url) = None"
  shows "\<exists>r. fst (extract_single E url ctx s) = Inr r \<and> embedUrl r = url
             \<and> is_success r \<noteq> is_failure r"
proof -
  from assms have "\<exists>r. fst (extract_single E url ctx s) = Inr r"
    by (auto simp: extract_single_def Let_def split: option.splits)
  then obtain r where r: "fst (extract_single E url ctx s) = Inr r" ..
  then show ?thesis
    using extract_single_url [OF r] extract_single_shape [OF r] by blast
qed

theorem extract_single_result_witness:
  "open_error (pages (always dns_failure) (attempt_no (M3U8Extractor None)) 0 ''u'') = None
   \<and> (\<exists>r. fst (extract_single (always dns_failure) ''u'' 0 (M3U8Extractor None)) = Inr r
          \<and> embedUrl r = ''u'' \<and> is_success r \<noteq> is_failure r)"
  using extract_single_result [of "always dns_failure" "M3U8Extractor None" 0 "''u''"]
  by (simp add: always_def dns_failure_def quiet_def)

text \<open>
  C2 as stated fails: when the browser is gone, opening the page raises and
  the exception leaves \<^verbatim>\<open>extract_single\<close>.
\<close>

theorem extract_single_escapes:
  "fst (extract_single (always unopened) ''u'' 0 (M3U8Extractor None))
     = Inl (PlaywrightError ''Target closed'')"
  by (simp add: extract_single_def always_def unopened_def quiet_def M3U8Extractor_def Let_def)

section \<open>The end of the navigation\<close>

text \<open>
  C4, as the code has it. The navigation task is one of the three awaitables of
  the race, so its completion with no manifest found decides the race. From then
  on only the responses count that are dispatched before the attempt tests the
  slot, that is, while \<^verbatim>\<open>extract_single\<close> resumes and while the page is being
  closed: when none of them matches, the attempt fails with the timeout
  message, whatever would have arrived later and before the timer; when one of
  them matches, the first such URL is the manifest of a successful attempt.
\<close>

theorem navigation_completion_ends_race:
  assumes pr: "pages E (attempt_no s) ctx url = pr"
    and ev: "events pr = map Response pre @ GotoReturned # post"
    and ok: "open_error pr = None" "close_error pr = None"
    and no: "\<forall>u\<in>set pre. \<not> matches E (config s) u"
  shows "((\<forall>u\<in>set (responses_of (take (resume_lag pr + close_lag pr) post)).
             \<not> matches E (config s) u) \<longrightarrow>
          fst (extract_single E url ctx s)
            = Inr \<lparr>embedUrl = url, m3u8Url = None, success = False, time = elapsed pr,
                   error = Some ''M3U8 URL not found within timeout''\<rparr>)
       \<and> (\<forall>u. [] \<notin> set (responses_of (take (resume_lag pr + close_lag pr) post))
             \<and> find (matches E (config s))
                 (responses_of (take (resume_lag pr + close_lag pr) post)) = Some u \<longrightarrow>
          fst (extract_single E url ctx s)
            = Inr \<lparr>embedUrl = url, m3u8Url = Some u, success = True, time = elapsed pr,
                   error = None\<rparr>)"
proof -
  let ?w = "responses_of (take (resume_lag pr + close_lag pr) post)"
  let ?h = "handle_response E (config s)"
  have "found_m3u8 (observe E (config s) pr) = found_m3u8 (foldl ?h new_attempt (pre @ ?w))"
    using received_navigation [OF ev no] by (simp add: observe_fold)
  then have slot: "found_m3u8 (observe E (config s) pr) = found_m3u8 (foldl ?h new_attempt ?w)"
    using fold_no_match [OF no, of new_attempt] by simp
  have "fst (extract_single E url ctx s)
          = Inr \<lparr>embedUrl = url, m3u8Url = None, success = False, time = elapsed pr,
                 error = Some ''M3U8 URL not found within timeout''\<rparr>"
    if "\<forall>u\<in>set ?w. \<not> matches E (config s) u"
  proof -
    have "found_m3u8 (observe E (config s) pr) = None"
      using slot fold_no_match [OF that, of new_attempt] by simp
    then show ?thesis using pr ok by (simp add: extract_single_def Let_def)
  qed
  moreover have "fst (extract_single E url ctx s)
          = Inr \<lparr>embedUrl = url, m3u8Url = Some u, success = True, time = elapsed pr,
                 error = None\<rparr>"
    if ne: "[] \<notin> set ?w" and f: "find (matches E (config s)) ?w = Some u" for u
  proof -
    have "found_m3u8 (observe E (config s) pr) = Some u"
      using slot fold_handle_found [OF ne, of E "config s" new_attempt] f by simp
    moreover have "u \<noteq> []" using ne find_SomeD [OF f] by auto
    ultimately show ?thesis using pr ok by (simp add: extract_single_def Let_def truthy_def)
  qed
  ultimately show ?thesis by blast
qed

theorem navigation_completion_ends_race_witness:
  "fst (extract_single (always late_stream) ''u'' 0 (M3U8Extractor (Some cfg2)))
     = Inr \<lparr>embedUrl = ''u'', m3u8Url = None, success = False, time = elapsed late_stream,
            error = Some ''M3U8 URL not found within timeout''\<rparr>
   \<and> fst (extract_single (always prompt_stream) ''u'' 0 (M3U8Extractor (Some cfg2)))
     = Inr \<lparr>embedUrl = ''u'', m3u8Url = Some ''x.m3u8'', success = True,
            time = elapsed prompt_stream, error = None\<rparr>"
  using navigation_completion_ends_race
    [of "always late_stream" "M3U8Extractor (Some cfg2)" 0 "''u''" late_stream "[]"
        "[Response ''a.js'', Response ''x.m3u8'', TimerFired]"]
    navigation_completion_ends_race
    [of "always prompt_stream" "M3U8Extractor (Some cfg2)" 0 "''u''" prompt_stream "[]"
        "[Response ''a.js'', Response ''x.m3u8'', TimerFired]"]
  by (simp add: always_def late_stream_def prompt_stream_def quiet_def matches_def cfg2_def
        default_config_def literal_search_def lower_def M3U8Extractor_def)

text \<open>
  C4 as stated fails: the page settles with no manifest found, the playlist
  would be answered before the timer fires, but only after the attempt has
  tested the slot, and the attempt has failed.
\<close>

theorem navigation_ends_race_counterexample:
  "matches (always late_stream) cfg2 ''x.m3u8''
   \<and> events late_stream = [GotoReturned, Response ''a.js'', Response ''x.m3u8'', TimerFired]
   \<and> fst (extract_single (always late_stream) ''u'' 0 (M3U8Extractor (Some cfg2)))
       = Inr \<lparr>embedUrl = ''u'', m3u8Url = None, success = False, time = 1000,
              error = Some ''M3U8 URL not found within timeout''\<rparr>"
  by (simp add: matches_def always_def late_stream_def quiet_def cfg2_def default_config_def
        literal_search_def lower_def extract_single_def observe_def cancel_pending_def
        is_done_def M3U8Extractor_def Let_def handle_response_def truthy_def)

section \<open>The manifest slot\<close>

text \<open>
  C8. On response URLs that are not empty, the manifest recorded by an attempt
  is the first URL, in the order of arrival, among the responses that the
  handler receives, that matches some configured pattern under
  \<^verbatim>\<open>re.IGNORECASE\<close>; once a URL is recorded the handler changes nothing any more;
  and the first match decides the race, whatever follows it.
\<close>

theorem found_manifest_write_once:
  assumes ne: "[] \<notin> set (received E cfg pr)"
  shows "found_m3u8 (observe E cfg pr) = find (matches E cfg) (received E cfg pr)
       \<and> (\<forall>a u. truthy (found_m3u8 a) \<longrightarrow> handle_response E cfg a u = a)
       \<and> (\<forall>pre u post. (\<forall>v\<in>set pre. \<not> matches E cfg v) \<and> matches E cfg u \<longrightarrow>
             race E cfg (map Response pre @ Response u # post) new_attempt
               = (new_attempt\<lparr>found_m3u8 := Some u, m3u8_future := Resolved u\<rparr>, post))"
  using observe_found [OF ne] handle_response_write_once race_first_match by blast

theorem found_manifest_write_once_witness:
  "[] \<notin> set (received (always streaming) cfg2 streaming)
   \<and> found_m3u8 (observe (always streaming) cfg2 streaming) = Some ''X.M3U8''
   \<and> find (matches (always streaming) cfg2) (received (always streaming) cfg2 streaming)
       = Some ''X.M3U8''"
  using found_manifest_write_once [of "always streaming" cfg2 streaming]
  by (simp add: received_def streaming_def quiet_def matches_def always_def cfg2_def
        literal_search_def lower_def)

section \<open>Closing the pool\<close>

text \<open>
  C9 fails on an extractor that was never initialized: \<^verbatim>\<open>close\<close> reads
  \<^verbatim>\<open>self.playwright\<close>, which only \<^verbatim>\<open>initialize\<close> assigns, and raises
  \<open>AttributeError\<close>.
\<close>

theorem close_never_initialized:
  "fst (close (M3U8Extractor cfg)) = Inl (AttributeError ''playwright'')"
  by (simp add: close_def M3U8Extractor_def Let_def)


section \<open>The pool and the convenience function\<close>

lemma close_after_initialize:
  assumes "playwright s = Some p"
  shows "fst (close s) = Inr ()"
    and "contexts (snd (close s)) = []" and "browser (snd (close s)) = None"
    and "trace (snd (close s)) =
           trace s @ map CloseContext (contexts s)
             @ (if browser s = None then [] else [CloseBrowser]) @ [StopPlaywright]"
  using assms by (auto simp: close_def Let_def split: option.splits)

text \<open>
  When Playwright does not start, the handler of \<^verbatim>\<open>extract_m3u8\<close> calls \<^verbatim>\<open>close\<close> on
  the extractor that was never initialized, and the \<open>AttributeError\<close> of \<^verbatim>\<open>close\<close>
  replaces the error of the start.
\<close>

lemma extract_m3u8_startup_failure:
  assumes "engine E = StartFails msg"
  shows "fst (extract_m3u8 E urls cfg) = Inl (AttributeError ''playwright'')"
  using assms
  by (simp add: extract_m3u8_def extract_retry_def extract_batch_def initialize_def
        reraise_after_close_def close_def M3U8Extractor_def Let_def)

section \<open>Traces, groups and the loop\<close>

subsection \<open>Traces\<close>

lemma peak_ge: "n \<le> peak_from n t"
  by (induction n t rule: peak_from.induct) auto

lemma load_append: "load_from n (t1 @ t2) = load_from (load_from n t1) t2"
  by (induction n t1 rule: load_from.induct) simp_all

lemma peak_append:
  "peak_from n (t1 @ t2) = max (peak_from n t1) (peak_from (load_from n t1) t2)"
  by (induction n t1 rule: peak_from.induct) (simp_all add: peak_ge max.absorb2 max.assoc)

lemma started_append: "started (t1 @ t2) = started t1 @ started t2"
  by (induction t1 rule: started.induct) simp_all

lemma load_dispatch: "load_from n (dispatch ts) = n + length ts"
  by (induction ts arbitrary: n) (auto simp: dispatch_def)

lemma peak_dispatch: "peak_from n (dispatch ts) = n + length ts"
proof (induction ts arbitrary: n)
  case Nil
  then show ?case by (simp add: dispatch_def)
next
  case (Cons t ts)
  then show ?case
    using Cons.IH [of "Suc n"] by (cases t) (simp add: dispatch_def)
qed

lemma started_dispatch: "started (dispatch ts) = map fst ts"
  by (induction ts) (auto simp: dispatch_def)

lemma groups_dispatch: "groups_of (dispatch ts @ t) cur = groups_of t (cur @ map fst ts)"
  by (induction ts arbitrary: cur) (auto simp: dispatch_def)

lemma groups_new_contexts: "groups_of (map NewContext ks @ t) cur = groups_of t cur"
  by (induction ks) simp_all

lemma load_new_contexts: "load_from n (map NewContext ks) = n"
  by (induction ks) simp_all

lemma peak_new_contexts: "peak_from n (map NewContext ks) = n"
  by (induction ks) simp_all

lemma started_new_contexts: "started (map NewContext ks) = []"
  by (induction ks) simp_all

subsection \<open>The partition of the specification\<close>

lemma spec_groups_concat: "0 < c \<Longrightarrow> concat (spec_groups c xs) = xs"
proof (induction c xs rule: spec_groups.induct)
  case (1 c xs)
  show ?case
  proof (cases "xs = []")
    case True
    then show ?thesis by (simp add: spec_groups.simps)
  next
    case False
    with 1 show ?thesis by (subst spec_groups.simps) simp
  qed
qed

lemma spec_groups_sizes: "g \<in> set (spec_groups c xs) \<Longrightarrow> g \<noteq> [] \<and> length g \<le> c"
proof (induction c xs rule: spec_groups.induct)
  case (1 c xs)
  show ?case
  proof (cases "c = 0 \<or> xs = []")
    case True
    with "1.prems" show ?thesis by (simp add: spec_groups.simps)
  next
    case False
    with "1.prems" have "g = take c xs \<or> g \<in> set (spec_groups c (drop c xs))"
      by (subst (asm) spec_groups.simps) simp
    with False "1.IH" show ?thesis by auto
  qed
qed

subsection \<open>A group\<close>

lemma run_tasks_frame:
  "config (snd (run_tasks E ts s)) = config s"
  "trace (snd (run_tasks E ts s)) = trace s"
  "contexts (snd (run_tasks E ts s)) = contexts s"
  "browser (snd (run_tasks E ts s)) = browser s"
  "playwright (snd (run_tasks E ts s)) = playwright s"
  by (induction ts arbitrary: s) (auto simp: split_beta extract_single_frame)

lemma run_tasks_stats_inv:
  "stats_inv (stats s) \<Longrightarrow> stats_inv (stats (snd (run_tasks E ts s)))"
  by (induction ts arbitrary: s) (auto simp: split_beta extract_single_stats_inv)

lemma run_tasks_urls:
  "gather (fst (run_tasks E ts s)) = Inr rs \<Longrightarrow> map embedUrl rs = map fst ts"
proof (induction E ts s arbitrary: rs rule: run_tasks.induct)
  case (1 E s)
  then show ?case by simp
next
  case (2 E url ctx ts s)
  obtain r s1 where r: "extract_single E url ctx s = (r, s1)" by (cases "extract_single E url ctx s")
  obtain os s2 where os: "run_tasks E ts s1 = (os, s2)" by (cases "run_tasks E ts s1")
  from "2.prems" r os obtain x xs where x: "r = Inr x" "gather os = Inr xs" "rs = x # xs"
    by (cases r; cases "gather os") auto
  have "embedUrl x = url" using extract_single_url [of E url ctx s x] r x by simp
  moreover have "map embedUrl xs = map fst ts"
    using "2.IH" [OF r [symmetric], of xs] os x by simp
  ultimately show ?case using x by simp
qed

lemma make_tasks_urls: "make_tasks batch s = Inr tasks \<Longrightarrow> map fst tasks = batch"
  by (auto simp: make_tasks_def split_beta comp_def split: if_splits)

lemma run_group_frame:
  "config (snd (run_group E batch s)) = config s"
  "contexts (snd (run_group E batch s)) = contexts s"
  "browser (snd (run_group E batch s)) = browser s"
  "playwright (snd (run_group E batch s)) = playwright s"
  by (auto simp: run_group_def split_beta run_tasks_frame split: sum.splits)

lemma run_group_stats_inv:
  "stats_inv (stats s) \<Longrightarrow> stats_inv (stats (snd (run_group E batch s)))"
  by (auto simp: run_group_def split_beta split: sum.splits intro!: run_tasks_stats_inv)

lemma run_group_Inr:
  assumes "run_group E batch s = (Inr rs, s')"
  shows "\<exists>tasks. map fst tasks = batch \<and> trace s' = trace s @ dispatch tasks @ [Join]
                \<and> map embedUrl rs = batch"
proof -
  from assms obtain tasks where t: "make_tasks batch s = Inr tasks"
    by (auto simp: run_group_def split: sum.splits)
  let ?s0 = "s\<lparr>trace := trace s @ dispatch tasks\<rparr>"
  obtain os s1 where os: "run_tasks E tasks ?s0 = (os, s1)" by (cases "run_tasks E tasks ?s0")
  from assms t os have g: "gather os = Inr rs" and s': "s' = s1\<lparr>trace := trace s1 @ [Join]\<rparr>"
    by (auto simp: run_group_def split: sum.splits)
  have "trace s1 = trace s @ dispatch tasks"
    using run_tasks_frame(2) [of E tasks ?s0] os by simp
  moreover have "map embedUrl rs = map fst tasks"
    using run_tasks_urls [of E tasks ?s0 rs] os g by simp
  ultimately show ?thesis using make_tasks_urls [OF t] s' by auto
qed

lemma run_group_Inl:
  assumes "run_group E batch s = (Inl e, s')"
  shows "trace s' = trace s \<or> (\<exists>tasks. map fst tasks = batch \<and> trace s' = trace s @ dispatch tasks)"
proof (cases "make_tasks batch s")
  case (Inl e')
  with assms show ?thesis by (simp add: run_group_def)
next
  case (Inr tasks)
  let ?s0 = "s\<lparr>trace := trace s @ dispatch tasks\<rparr>"
  obtain os s1 where os: "run_tasks E tasks ?s0 = (os, s1)" by (cases "run_tasks E tasks ?s0")
  from assms Inr os have "s' = s1"
    by (auto simp: run_group_def split: sum.splits)
  moreover have "trace s1 = trace s @ dispatch tasks"
    using run_tasks_frame(2) [of E tasks ?s0] os by simp
  ultimately show ?thesis using make_tasks_urls [OF Inr] by auto
qed

subsection \<open>The loop over the groups\<close>

lemma batch_loop_stop:
  "c = 0 \<or> length urls \<le> i \<Longrightarrow> batch_loop E c urls i results s = (Inr results, s)"
  by (simp add: batch_loop.simps)

lemma batch_loop_Inl:
  "\<not> (c = 0 \<or> length urls \<le> i) \<Longrightarrow> run_group E (take c (drop i urls)) s = (Inl e, s1) \<Longrightarrow>
   batch_loop E c urls i results s = (Inl e, s1)"
  by (simp add: batch_loop.simps)

lemma batch_loop_Inr:
  "\<not> (c = 0 \<or> length urls \<le> i) \<Longrightarrow> run_group E (take c (drop i urls)) s = (Inr br, s1) \<Longrightarrow>
   batch_loop E c urls i results s = batch_loop E c urls (i + c) (results @ br) s1"
  by (simp add: batch_loop.simps)

lemma batch_loop_frame:
  "config (snd (batch_loop E c urls i results s)) = config s
   \<and> contexts (snd (batch_loop E c urls i results s)) = contexts s
   \<and> browser (snd (batch_loop E c urls i results s)) = browser s
   \<and> playwright (snd (batch_loop E c urls i results s)) = playwright s"
proof (induction E c urls i results s rule: batch_loop.induct)
  case (1 E c urls i results s)
  show ?case
  proof (cases "c = 0 \<or> length urls \<le> i")
    case True
    then show ?thesis by (simp add: batch_loop_stop)
  next
    case False
    obtain out s1 where g: "run_group E (take c (drop i urls)) s = (out, s1)"
      by (cases "run_group E (take c (drop i urls)) s")
    have fr: "config s1 = config s" "contexts s1 = contexts s" "browser s1 = browser s"
      "playwright s1 = playwright s"
      using run_group_frame [of E "take c (drop i urls)" s] g by simp_all
    show ?thesis
    proof (cases out)
      case (Inl e)
      then show ?thesis using batch_loop_Inl [OF False] g fr by simp
    next
      case (Inr br)
      then show ?thesis
        using batch_loop_Inr [OF False, of E s br s1 results] g fr "1.IH" [OF False g [symmetric] Inr]
        by simp
    qed
  qed
qed

lemma batch_loop_stats_inv:
  "stats_inv (stats s) \<Longrightarrow> stats_inv (stats (snd (batch_loop E c urls i results s)))"
proof (induction E c urls i results s rule: batch_loop.induct)
  case (1 E c urls i results s)
  show ?case
  proof (cases "c = 0 \<or> length urls \<le> i")
    case True
    then show ?thesis using "1.prems" by (simp add: batch_loop_stop)
  next
    case False
    obtain out s1 where g: "run_group E (take c (drop i urls)) s = (out, s1)"
      by (cases "run_group E (take c (drop i urls)) s")
    have inv1: "stats_inv (stats s1)"
      using run_group_stats_inv [OF "1.prems", of E "take c (drop i urls)"] g by simp
    show ?thesis
    proof (cases out)
      case (Inl e)
      then show ?thesis using batch_loop_Inl [OF False] g inv1 by simp
    next
      case (Inr br)
      then show ?thesis
        using batch_loop_Inr [OF False, of E s br s1 results] g
          "1.IH" [OF False g [symmetric] Inr inv1]
        by simp
    qed
  qed
qed

lemma run_group_peak:
  assumes idle: "load_from 0 (trace s) = 0" and le: "peak_from 0 (trace s) \<le> c"
    and len: "length batch \<le> c" and g: "run_group E batch s = (out, s')"
  shows "peak_from 0 (trace s') \<le> c \<and> (\<forall>rs. out = Inr rs \<longrightarrow> load_from 0 (trace s') = 0)"
proof (cases out)
  case (Inl e)
  then have "trace s' = trace s \<or> (\<exists>tasks. map fst tasks = batch \<and> trace s' = trace s @ dispatch tasks)"
    using run_group_Inl g by simp
  then show ?thesis
  proof
    assume "trace s' = trace s"
    with le Inl show ?thesis by simp
  next
    assume "\<exists>tasks. map fst tasks = batch \<and> trace s' = trace s @ dispatch tasks"
    then obtain tasks where t: "map fst tasks = batch" "trace s' = trace s @ dispatch tasks" by blast
    then have "length tasks = length batch" by (metis length_map)
    with t le len idle Inl show ?thesis by (simp add: peak_append peak_dispatch)
  qed
next
  case (Inr rs)
  then obtain tasks where t: "map fst tasks = batch" "trace s' = trace s @ dispatch tasks @ [Join]"
    using run_group_Inr g by blast
  then have "length tasks = length batch" by (metis length_map)
  with t le len idle Inr show ?thesis
    by (simp add: peak_append load_append peak_dispatch load_dispatch)
qed

lemma batch_loop_peak:
  "load_from 0 (trace s) = 0 \<Longrightarrow> peak_from 0 (trace s) \<le> c \<Longrightarrow>
   peak_from 0 (trace (snd (batch_loop E c urls i results s))) \<le> c
   \<and> (\<forall>rs. fst (batch_loop E c urls i results s) = Inr rs \<longrightarrow>
         load_from 0 (trace (snd (batch_loop E c urls i results s))) = 0)"
proof (induction E c urls i results s rule: batch_loop.induct)
  case (1 E c urls i results s)
  show ?case
  proof (cases "c = 0 \<or> length urls \<le> i")
    case True
    then show ?thesis using "1.prems" by (simp add: batch_loop_stop)
  next
    case False
    obtain out s1 where g: "run_group E (take c (drop i urls)) s = (out, s1)"
      by (cases "run_group E (take c (drop i urls)) s")
    have p: "peak_from 0 (trace s1) \<le> c \<and> (\<forall>rs. out = Inr rs \<longrightarrow> load_from 0 (trace s1) = 0)"
      using run_group_peak [OF "1.prems" _ g] by simp
    show ?thesis
    proof (cases out)
      case (Inl e)
      then show ?thesis using batch_loop_Inl [OF False] g p by simp
    next
      case (Inr br)
      with p have "load_from 0 (trace s1) = 0" "peak_from 0 (trace s1) \<le> c" by simp_all
      then show ?thesis
        using batch_loop_Inr [OF False, of E s br s1 results] g Inr
          "1.IH" [OF False g [symmetric] Inr]
        by simp
    qed
  qed
qed

lemma spec_groups_step:
  "0 < c \<Longrightarrow> i < length urls \<Longrightarrow>
   spec_groups c (drop i urls) = take c (drop i urls) # spec_groups c (drop (i + c) urls)"
  by (subst spec_groups.simps) (simp add: add.commute)

lemma batch_loop_result:
  "batch_loop E c urls i results s = (Inr rs, s') \<Longrightarrow> 0 < c \<Longrightarrow>
   map embedUrl rs = map embedUrl results @ drop i urls
   \<and> (\<exists>ev. trace s' = trace s @ ev \<and> groups_of ev [] = spec_groups c (drop i urls))"
proof (induction E c urls i results s rule: batch_loop.induct)
  case (1 E c urls i results s)
  show ?case
  proof (cases "c = 0 \<or> length urls \<le> i")
    case True
    then show ?thesis using "1.prems" by (simp add: batch_loop_stop spec_groups.simps)
  next
    case False
    obtain out s1 where g: "run_group E (take c (drop i urls)) s = (out, s1)"
      by (cases "run_group E (take c (drop i urls)) s")
    show ?thesis
    proof (cases out)
      case (Inl e)
      then show ?thesis using batch_loop_Inl [OF False] g "1.prems" by simp
    next
      case (Inr br)
      then obtain tasks where t: "map fst tasks = take c (drop i urls)"
        "trace s1 = trace s @ dispatch tasks @ [Join]" "map embedUrl br = take c (drop i urls)"
        using run_group_Inr g by blast
      have "batch_loop E c urls (i + c) (results @ br) s1 = (Inr rs, s')"
        using batch_loop_Inr [OF False, of E s br s1 results] g Inr "1.prems" by simp
      from "1.IH" [OF False g [symmetric] Inr this "1.prems"(2)]
      obtain ev where ev: "map embedUrl rs = map embedUrl (results @ br) @ drop (i + c) urls"
        "trace s' = trace s1 @ ev" "groups_of ev [] = spec_groups c (drop (i + c) urls)"
        by blast
      have "take c (drop i urls) @ drop (i + c) urls = drop i urls"
        by (metis add.commute append_take_drop_id drop_drop)
      then have "map embedUrl rs = map embedUrl results @ drop i urls"
        using ev(1) t(3) by simp
      moreover have "trace s' = trace s @ (dispatch tasks @ [Join] @ ev)"
        using ev(2) t(2) by simp
      moreover have "groups_of (dispatch tasks @ [Join] @ ev) [] = spec_groups c (drop i urls)"
        using False "1.prems"(2) ev(3) t(1) by (simp add: groups_dispatch spec_groups_step)
      ultimately show ?thesis by blast
    qed
  qed
qed

lemma groups_concat: "concat (groups_of t cur) = cur @ started t"
  by (induction t cur rule: groups_of.induct) simp_all

subsection \<open>A batch\<close>

lemma ensure_browser:
  assumes "(if browser s = None then initialize E s else (Inr (), s)) = (out, s1)"
  shows "config s1 = config s \<and> stats s1 = stats s
         \<and> (\<exists>ks. trace s1 = trace s @ map NewContext ks)"
proof (cases "browser s = None")
  case True
  with assms have i: "initialize E s = (out, s1)" by simp
  show ?thesis
  proof (cases "engine E")
    case Launched
    with i show ?thesis by (auto simp: initialize_def Let_def)
  next
    case (StartFails m)
    with i have "s1 = s" by (simp add: initialize_def)
    then show ?thesis by (auto intro: exI [of _ "[]"])
  next
    case (LaunchFails m)
    with i have "s1 = s\<lparr>playwright := Some Playwright\<rparr>" by (simp add: initialize_def)
    then show ?thesis by (auto intro: exI [of _ "[]"])
  qed
next
  case False
  with assms have "s1 = s" by simp
  then show ?thesis by (auto intro: exI [of _ "[]"])
qed

lemma extract_batch_unfold:
  assumes "(if browser s = None then initialize E s else (Inr (), s)) = (out, s1)"
  shows "extract_batch E urls s =
     (case out of
        Inl e \<Rightarrow> (Inl e, s1)
      | Inr u \<Rightarrow>
          (if concurrency (config s) = 0
           then (Inl (ValueError ''range() arg 3 must not be zero''), s1)
           else if concurrency (config s) < 0 then (Inr [], s1)
           else batch_loop E (nat (concurrency (config s))) urls 0 [] s1))"
  using assms ensure_browser [OF assms]
  by (simp add: extract_batch_def Let_def split: sum.splits)

lemma extract_batch_config: "config (snd (extract_batch E urls s)) = config s"
proof -
  obtain out s1 where i: "(if browser s = None then initialize E s else (Inr (), s)) = (out, s1)"
    by (cases "if browser s = None then initialize E s else (Inr (), s)")
  show ?thesis
    using ensure_browser [OF i] batch_loop_frame [of E _ urls 0 "[]" s1]
    by (simp add: extract_batch_unfold [OF i] split: sum.splits)
qed

lemma extract_batch_stats_inv:
  assumes "stats_inv (stats s)"
  shows "stats_inv (stats (snd (extract_batch E urls s)))"
proof -
  obtain out s1 where i: "(if browser s = None then initialize E s else (Inr (), s)) = (out, s1)"
    by (cases "if browser s = None then initialize E s else (Inr (), s)")
  then have "stats_inv (stats s1)" using ensure_browser [OF i] assms by simp
  then show ?thesis
    using batch_loop_stats_inv [of s1 E _ urls 0 "[]"]
    by (simp add: extract_batch_unfold [OF i] split: sum.splits)
qed

lemma extract_batch_peak:
  assumes "load_from 0 (trace s) = 0" "peak_from 0 (trace s) \<le> nat (concurrency (config s))"
  shows "peak_from 0 (trace (snd (extract_batch E urls s))) \<le> nat (concurrency (config s))
         \<and> (\<forall>rs. fst (extract_batch E urls s) = Inr rs \<longrightarrow>
               load_from 0 (trace (snd (extract_batch E urls s))) = 0)"
proof -
  obtain out s1 where i: "(if browser s = None then initialize E s else (Inr (), s)) = (out, s1)"
    by (cases "if browser s = None then initialize E s else (Inr (), s)")
  then obtain ks where "trace s1 = trace s @ map NewContext ks"
    using ensure_browser [OF i] by blast
  then have s1: "load_from 0 (trace s1) = 0" "peak_from 0 (trace s1) \<le> nat (concurrency (config s))"
    using assms by (simp_all add: load_append peak_append load_new_contexts peak_new_contexts)
  show ?thesis
    using s1 batch_loop_peak [OF s1, of E urls 0 "[]"]
    by (auto simp: extract_batch_unfold [OF i] split: sum.splits)
qed

lemma extract_batch_result:
  assumes b: "extract_batch E urls s = (Inr rs, s')" and c: "0 \<le> concurrency (config s)"
  shows "map embedUrl rs = urls
         \<and> (\<exists>ev. trace s' = trace s @ ev
                \<and> groups_of ev [] = spec_groups (nat (concurrency (config s))) urls)"
proof -
  obtain out s1 where i: "(if browser s = None then initialize E s else (Inr (), s)) = (out, s1)"
    by (cases "if browser s = None then initialize E s else (Inr (), s)")
  then obtain ks where ks: "trace s1 = trace s @ map NewContext ks"
    using ensure_browser [OF i] by blast
  from b c have pos: "0 < concurrency (config s)"
    and l: "batch_loop E (nat (concurrency (config s))) urls 0 [] s1 = (Inr rs, s')"
    by (auto simp: extract_batch_unfold [OF i] split: sum.splits if_splits)
  from batch_loop_result [OF l] pos obtain ev where
    ev: "map embedUrl rs = urls" "trace s' = trace s1 @ ev"
        "groups_of ev [] = spec_groups (nat (concurrency (config s))) urls"
    by auto
  have "trace s' = trace s @ (map NewContext ks @ ev)" using ev(2) ks by simp
  moreover have "groups_of (map NewContext ks @ ev) []
                   = spec_groups (nat (concurrency (config s))) urls"
    using ev(3) by (simp add: groups_new_contexts)
  ultimately show ?thesis using ev(1) by blast
qed

lemma extract_batch_started:
  assumes b: "extract_batch E urls s = (Inr rs, s')" and c: "0 \<le> concurrency (config s)"
  shows "started (trace s') = started (trace s) @ urls"
proof -
  from extract_batch_result [OF b c] obtain ev where
    ev: "trace s' = trace s @ ev"
        "groups_of ev [] = spec_groups (nat (concurrency (config s))) urls" by blast
  from b c have pos: "0 < concurrency (config s)"
  proof -
    obtain out s1 where i: "(if browser s = None then initialize E s else (Inr (), s)) = (out, s1)"
      by (cases "if browser s = None then initialize E s else (Inr (), s)")
    show ?thesis
    proof (rule ccontr)
      assume "\<not> 0 < concurrency (config s)"
      with c have z: "concurrency (config s) = 0" by simp
      with b show False by (simp add: extract_batch_unfold [OF i] split: sum.splits)
    qed
  qed
  have "started ev = concat (groups_of ev [])" by (simp add: groups_concat)
  also have "\<dots> = urls" using ev(2) pos by (simp add: spec_groups_concat)
  finally show ?thesis using ev(1) by (simp add: started_append)
qed

subsection \<open>The merge\<close>

lemma replace_matching_map:
  "replace_matching rr rs
     = map (\<lambda>r. if embedUrl r = embedUrl rr \<and> success rr then rr else r) rs"
  by (induction rs) simp_all

lemma merged_entry_Cons:
  "merged_entry rest (if embedUrl r = embedUrl rr \<and> success rr then rr else r)
     = merged_entry (rr # rest) r"
  by (auto simp: merged_entry_def find_append split: option.splits)

lemma merge_retries_map: "merge_retries rs rrs = map (merged_entry rrs) rs"
proof (induction rrs arbitrary: rs)
  case Nil
  then show ?case by (simp add: merged_entry_def)
next
  case (Cons rr rest)
  then show ?case by (simp add: replace_matching_map merged_entry_Cons comp_def)
qed

lemma merged_entry_url: "embedUrl (merged_entry rrs r) = embedUrl r"
  by (auto simp: merged_entry_def split: option.splits dest!: find_SomeD)

lemma merged_entry_unchanged:
  "\<forall>x\<in>set rrs. embedUrl x = embedUrl r \<longrightarrow> \<not> success x \<Longrightarrow> merged_entry rrs r = r"
  by (auto simp: merged_entry_def split: option.splits dest!: find_SomeD)

lemma merged_entry_replaced:
  assumes "x \<in> set rrs" "success x" "embedUrl x = embedUrl r"
  shows "merged_entry rrs r \<in> set rrs \<and> success (merged_entry rrs r)"
proof -
  from assms have "find (\<lambda>x. success x \<and> embedUrl x = embedUrl r) (rev rrs) \<noteq> None"
    by (auto simp: find_None_iff)
  then obtain y where y: "find (\<lambda>x. success x \<and> embedUrl x = embedUrl r) (rev rrs) = Some y"
    by blast
  then have "y \<in> set rrs \<and> success y"
    using find_SomeD [OF y] by simp
  with y show ?thesis by (simp add: merged_entry_def)
qed

subsection \<open>Extraction with retry\<close>

lemma extract_retry_Inl:
  "extract_batch E urls s = (Inl e, s1) \<Longrightarrow> extract_retry E urls s = (Inl e, s1)"
  by (simp add: extract_retry_def)

lemma extract_retry_no_retry:
  assumes "extract_batch E urls s = (Inr rs1, s1)"
    and "\<not> 0 < retries (config s) \<or> filter (\<lambda>r. \<not> success r) rs1 = []"
  shows "extract_retry E urls s = (Inr rs1, s1)"
  using assms extract_batch_config [of E urls s]
  by (auto simp: extract_retry_def Let_def)

lemma extract_retry_retry:
  assumes "extract_batch E urls s = (Inr rs1, s1)"
    and "0 < retries (config s)" "filter (\<lambda>r. \<not> success r) rs1 \<noteq> []"
  shows "extract_retry E urls s =
     (case extract_batch E (map embedUrl (filter (\<lambda>r. \<not> success r) rs1)) s1 of
        (Inl e, s2) \<Rightarrow> (Inl e, s2)
      | (Inr retry_results, s2) \<Rightarrow> (Inr (merge_retries rs1 retry_results), s2))"
  using assms extract_batch_config [of E urls s]
  by (simp add: extract_retry_def Let_def)

lemma extract_retry_stats_inv:
  assumes "stats_inv (stats s)"
  shows "stats_inv (stats (snd (extract_retry E urls s)))"
proof -
  obtain o1 s1 where b: "extract_batch E urls s = (o1, s1)" by (cases "extract_batch E urls s")
  then have inv1: "stats_inv (stats s1)"
    using extract_batch_stats_inv [OF assms, of E urls] by simp
  show ?thesis
  proof (cases o1)
    case (Inl e)
    with b inv1 show ?thesis by (simp add: extract_retry_Inl)
  next
    case (Inr rs1)
    show ?thesis
    proof (cases "0 < retries (config s) \<and> filter (\<lambda>r. \<not> success r) rs1 \<noteq> []")
      case False
      then show ?thesis using b Inr inv1 extract_retry_no_retry [of E urls s rs1 s1] by auto
    next
      case True
      let ?again = "map embedUrl (filter (\<lambda>r. \<not> success r) rs1)"
      have "stats_inv (stats (snd (extract_batch E ?again s1)))"
        using extract_batch_stats_inv [OF inv1] .
      then show ?thesis
        using b Inr True extract_retry_retry [of E urls s rs1 s1]
        by (auto split: prod.splits sum.splits)
    qed
  qed
qed

lemma extract_retry_peak:
  assumes "load_from 0 (trace s) = 0" "peak_from 0 (trace s) \<le> nat (concurrency (config s))"
  shows "peak_from 0 (trace (snd (extract_retry E urls s))) \<le> nat (concurrency (config s))"
proof -
  obtain o1 s1 where b: "extract_batch E urls s = (o1, s1)" by (cases "extract_batch E urls s")
  have p1: "peak_from 0 (trace s1) \<le> nat (concurrency (config s))"
    and l1: "\<forall>rs. o1 = Inr rs \<longrightarrow> load_from 0 (trace s1) = 0"
    using extract_batch_peak [OF assms, of E urls] b by simp_all
  have c1: "config s1 = config s" using extract_batch_config [of E urls s] b by simp
  show ?thesis
  proof (cases o1)
    case (Inl e)
    with b p1 show ?thesis by (simp add: extract_retry_Inl)
  next
    case (Inr rs1)
    show ?thesis
    proof (cases "0 < retries (config s) \<and> filter (\<lambda>r. \<not> success r) rs1 \<noteq> []")
      case False
      then show ?thesis using b Inr p1 extract_retry_no_retry [of E urls s rs1 s1] by auto
    next
      case True
      let ?again = "map embedUrl (filter (\<lambda>r. \<not> success r) rs1)"
      have "peak_from 0 (trace (snd (extract_batch E ?again s1))) \<le> nat (concurrency (config s))"
        using extract_batch_peak [of s1 E ?again] p1 l1 Inr c1 by simp
      then show ?thesis
        using b Inr True extract_retry_retry [of E urls s rs1 s1]
        by (auto split: prod.splits sum.splits)
    qed
  qed
qed

text \<open>The two shapes of a run of \<open>extract_retry\<close> that returns.\<close>

lemma extract_retry_returns:
  assumes r: "extract_retry E urls s = (Inr rs, s')"
  obtains (single) "extract_batch E urls s = (Inr rs, s')"
      "\<not> 0 < retries (config s) \<or> filter (\<lambda>r. \<not> success r) rs = []"
    | (retried) rs1 s1 rr where "extract_batch E urls s = (Inr rs1, s1)"
      "0 < retries (config s)" "filter (\<lambda>r. \<not> success r) rs1 \<noteq> []"
      "extract_batch E (map embedUrl (filter (\<lambda>r. \<not> success r) rs1)) s1 = (Inr rr, s')"
      "rs = merge_retries rs1 rr"
proof -
  obtain o1 s1 where b: "extract_batch E urls s = (o1, s1)" by (cases "extract_batch E urls s")
  show ?thesis
  proof (cases o1)
    case (Inl e)
    with b r show ?thesis by (simp add: extract_retry_Inl)
  next
    case (Inr rs1)
    show ?thesis
    proof (cases "0 < retries (config s) \<and> filter (\<lambda>r. \<not> success r) rs1 \<noteq> []")
      case False
      then have "extract_retry E urls s = (Inr rs1, s1)"
        using b Inr extract_retry_no_retry [of E urls s rs1 s1] by auto
      with r b Inr False show ?thesis by (auto intro: single)
    next
      case True
      let ?again = "map embedUrl (filter (\<lambda>r. \<not> success r) rs1)"
      obtain o2 s2 where b2: "extract_batch E ?again s1 = (o2, s2)"
        by (cases "extract_batch E ?again s1")
      from r b Inr True b2 obtain rr where "o2 = Inr rr" "s2 = s'" "rs = merge_retries rs1 rr"
        using extract_retry_retry [of E urls s rs1 s1] by (cases o2) auto
      with b Inr True b2 show ?thesis by (auto intro: retried)
    qed
  qed
qed

section \<open>The claims about batches and retries\<close>

subsection \<open>Two runs, evaluated\<close>

lemma flaky_results:
  "fst (extract_retry flaky [''u'', ''v'', ''w''] (M3U8Extractor (Some cfg2))) =
   Inr [\<lparr>embedUrl = ''u'', m3u8Url = Some ''X.M3U8'', success = True, time = 500, error = None\<rparr>,
        \<lparr>embedUrl = ''v'', m3u8Url = Some ''X.M3U8'', success = True, time = 500, error = None\<rparr>,
        \<lparr>embedUrl = ''w'', m3u8Url = Some ''X.M3U8'', success = True, time = 500, error = None\<rparr>]"
  by code_simp

lemma flaky_first_pass:
  "fst (extract_batch flaky [''u'', ''v'', ''w''] (M3U8Extractor (Some cfg2))) =
   Inr [\<lparr>embedUrl = ''u'', m3u8Url = None, success = False, time = 1000,
          error = Some ''M3U8 URL not found within timeout''\<rparr>,
        \<lparr>embedUrl = ''v'', m3u8Url = None, success = False, time = 1000,
          error = Some ''M3U8 URL not found within timeout''\<rparr>,
        \<lparr>embedUrl = ''w'', m3u8Url = Some ''X.M3U8'', success = True, time = 500, error = None\<rparr>]"
  by code_simp

lemma flaky_config:
  "concurrency (config (M3U8Extractor (Some cfg2))) = 2"
  "retries (config (M3U8Extractor (Some cfg2))) = 1"
  "trace (M3U8Extractor (Some cfg2)) = []"
  by (simp_all add: M3U8Extractor_def cfg2_def default_config_def)

lemma pair_of_fst: "fst p = a \<Longrightarrow> p = (a, snd p)"
  by (cases p) simp

text \<open>
  C1. With a concurrency that is not negative, the list returned by \<^verbatim>\<open>extract\<close> has
  the length of the input. When the retry pass runs, the result is the first
  pass with each entry replaced in place by \<open>merged_entry\<close>: an entry whose URL was
  retried with success holds a successful retry result for that URL, and an
  entry whose URL was only retried without success is the entry of the first
  pass. Nothing is added and nothing is dropped.
\<close>

theorem extract_retry_length_and_merge:
  assumes ret: "extract_retry E urls s = (Inr rs, s')" and c: "0 \<le> concurrency (config s)"
  shows "length rs = length urls
       \<and> (\<forall>rs1 s1 rr.
             extract_batch E urls s = (Inr rs1, s1) \<and> 0 < retries (config s)
             \<and> filter (\<lambda>r. \<not> success r) rs1 \<noteq> []
             \<and> extract_batch E (map embedUrl (filter (\<lambda>r. \<not> success r) rs1)) s1 = (Inr rr, s')
           \<longrightarrow> length rs1 = length urls \<and> rs = map (merged_entry rr) rs1
               \<and> (\<forall>i<length urls. (\<exists>x\<in>set rr. success x \<and> embedUrl x = urls ! i)
                      \<longrightarrow> rs ! i \<in> set rr \<and> success (rs ! i) \<and> embedUrl (rs ! i) = urls ! i)
               \<and> (\<forall>i<length urls. (\<forall>x\<in>set rr. embedUrl x = urls ! i \<longrightarrow> \<not> success x)
                      \<longrightarrow> rs ! i = rs1 ! i))"
  using ret
proof (cases rule: extract_retry_returns)
  case single
  have "map embedUrl rs = urls" using extract_batch_result [OF single(1) c] by blast
  then have "length rs = length urls" by (metis length_map)
  with single show ?thesis by auto
next
  case (retried rs1 s1 rr)
  have u1: "map embedUrl rs1 = urls" using extract_batch_result [OF retried(1) c] by blast
  then have l1: "length rs1 = length urls" by (metis length_map)
  have m: "rs = map (merged_entry rr) rs1" using retried(5) by (simp add: merge_retries_map)
  have url: "\<And>i. i < length urls \<Longrightarrow> embedUrl (rs1 ! i) = urls ! i"
    using u1 l1 by (metis nth_map)
  have a: "\<And>i. i < length urls \<Longrightarrow> \<exists>x\<in>set rr. success x \<and> embedUrl x = urls ! i \<Longrightarrow>
             rs ! i \<in> set rr \<and> success (rs ! i) \<and> embedUrl (rs ! i) = urls ! i"
    using m l1 url merged_entry_replaced merged_entry_url by (metis nth_map)
  have b: "\<And>i. i < length urls \<Longrightarrow> \<forall>x\<in>set rr. embedUrl x = urls ! i \<longrightarrow> \<not> success x \<Longrightarrow>
             rs ! i = rs1 ! i"
    using m l1 url merged_entry_unchanged by (metis nth_map)
  from m l1 have "length rs = length urls" by simp
  with retried(1,4) m l1 a b show ?thesis by auto
qed

theorem extract_retry_length_and_merge_witness:
  "0 \<le> concurrency (config (M3U8Extractor (Some cfg2)))
   \<and> length (projr (fst (extract_retry flaky [''u'', ''v'', ''w''] (M3U8Extractor (Some cfg2)))))
       = length [''u'', ''v'', ''w'']"
  using extract_retry_length_and_merge
    [OF pair_of_fst [OF flaky_results], of]
  by (simp add: flaky_config flaky_results)

text \<open>
  C3. With a concurrency that is not negative, a batch returns one result per
  input URL, the result at position \<open>i\<close> being the one for the URL at position
  \<open>i\<close>, and the attempts were started in the order of the input.
\<close>

theorem extract_batch_order:
  assumes b: "extract_batch E urls s = (Inr rs, s')" and c: "0 \<le> concurrency (config s)"
  shows "length rs = length urls \<and> (\<forall>i<length urls. embedUrl (rs ! i) = urls ! i)
       \<and> started (trace s') = started (trace s) @ urls"
proof -
  have u: "map embedUrl rs = urls" using extract_batch_result [OF b c] by blast
  then have l: "length rs = length urls" by (metis length_map)
  from u l have "\<forall>i<length urls. embedUrl (rs ! i) = urls ! i" by (metis nth_map)
  with l extract_batch_started [OF b c] show ?thesis by simp
qed

theorem extract_batch_order_witness:
  "0 \<le> concurrency (config (M3U8Extractor (Some cfg2)))
   \<and> map embedUrl (projr (fst (extract_batch flaky [''u'', ''v'', ''w''] (M3U8Extractor (Some cfg2)))))
       = [''u'', ''v'', ''w'']
   \<and> started (trace (snd (extract_batch flaky [''u'', ''v'', ''w''] (M3U8Extractor (Some cfg2)))))
       = [''u'', ''v'', ''w'']"
  using extract_batch_order [OF pair_of_fst [OF flaky_first_pass]]
  by (simp add: flaky_config flaky_first_pass)

lemma flaky_started:
  "started (trace (snd (extract_retry flaky [''u'', ''v'', ''w''] (M3U8Extractor (Some cfg2)))))
     = [''u'', ''v'', ''w'', ''u'', ''v'']"
  by code_simp

text \<open>
  C5. The URLs attempted by a run of \<^verbatim>\<open>extract\<close> that returns are the input, once
  each and in order, followed, when \<^verbatim>\<open>retries\<close> is positive, by the URLs of the
  failed results of the first pass in their order, also once each; the size of
  \<^verbatim>\<open>retries\<close> plays no role, and with \<^verbatim>\<open>retries\<close> at 0 or below nothing is attempted
  a second time.
\<close>

theorem extract_retry_single_retry_pass:
  assumes ret: "extract_retry E urls s = (Inr rs, s')" and c: "0 \<le> concurrency (config s)"
  shows "\<exists>rs1 s1. extract_batch E urls s = (Inr rs1, s1) \<and> map embedUrl rs1 = urls
           \<and> started (trace s') = started (trace s) @ urls @
                (if 0 < retries (config s)
                 then map embedUrl (filter (\<lambda>r. \<not> success r) rs1) else [])"
  using ret
proof (cases rule: extract_retry_returns)
  case single
  have "map embedUrl rs = urls" using extract_batch_result [OF single(1) c] by blast
  with single extract_batch_started [OF single(1) c] show ?thesis by auto
next
  case (retried rs1 s1 rr)
  have u1: "map embedUrl rs1 = urls" using extract_batch_result [OF retried(1) c] by blast
  have c1: "0 \<le> concurrency (config s1)"
    using c extract_batch_config [of E urls s] retried(1) by simp
  have "started (trace s') = started (trace s1) @ map embedUrl (filter (\<lambda>r. \<not> success r) rs1)"
    using extract_batch_started [OF retried(4) c1] .
  with extract_batch_started [OF retried(1) c] u1 retried(1,2) show ?thesis by simp
qed

theorem extract_retry_single_retry_pass_witness:
  "0 \<le> concurrency (config (M3U8Extractor (Some cfg2)))
   \<and> (\<exists>rs1 s1. extract_batch flaky [''u'', ''v'', ''w''] (M3U8Extractor (Some cfg2)) = (Inr rs1, s1)
        \<and> map embedUrl rs1 = [''u'', ''v'', ''w'']
        \<and> [''u'', ''v'', ''w'', ''u'', ''v''] = [''u'', ''v'', ''w''] @
             (if 0 < retries (config (M3U8Extractor (Some cfg2)))
              then map embedUrl (filter (\<lambda>r. \<not> success r) rs1) else []))"
  using extract_retry_single_retry_pass [OF pair_of_fst [OF flaky_results]]
  by (simp add: flaky_config flaky_started)

text \<open>
  C6. Starting with nothing in flight, at no moment of a batch, nor of an
  extraction with retry, are more than \<^verbatim>\<open>concurrency\<close> attempts in flight. The
  groups started by a batch that returns are the consecutive groups of the
  specification: together they are the input, none is empty and none is longer
  than \<^verbatim>\<open>concurrency\<close>; every group is joined before the next one starts.
\<close>

theorem batch_bounded_concurrency:
  assumes idle: "load_from 0 (trace s) = 0"
    and le: "peak_from 0 (trace s) \<le> nat (concurrency (config s))"
  shows "peak_from 0 (trace (snd (extract_batch E urls s))) \<le> nat (concurrency (config s))
       \<and> peak_from 0 (trace (snd (extract_retry E urls s))) \<le> nat (concurrency (config s))
       \<and> (\<forall>rs s'. extract_batch E urls s = (Inr rs, s') \<and> 0 \<le> concurrency (config s) \<longrightarrow>
             (\<exists>ev. trace s' = trace s @ ev
                 \<and> groups_of ev [] = spec_groups (nat (concurrency (config s))) urls
                 \<and> concat (groups_of ev []) = urls
                 \<and> (\<forall>g\<in>set (groups_of ev []). g \<noteq> [] \<and> length g \<le> nat (concurrency (config s)))))"
proof -
  have "\<exists>ev. trace s' = trace s @ ev
            \<and> groups_of ev [] = spec_groups (nat (concurrency (config s))) urls
            \<and> concat (groups_of ev []) = urls
            \<and> (\<forall>g\<in>set (groups_of ev []). g \<noteq> [] \<and> length g \<le> nat (concurrency (config s)))"
    if b: "extract_batch E urls s = (Inr rs, s')" and c: "0 \<le> concurrency (config s)" for rs s'
  proof -
    from extract_batch_result [OF b c] obtain ev where
      ev: "trace s' = trace s @ ev"
          "groups_of ev [] = spec_groups (nat (concurrency (config s))) urls" by blast
    have "started (trace s') = started (trace s) @ urls" using extract_batch_started [OF b c] .
    then have "started ev = urls" using ev(1) by (simp add: started_append)
    then have "concat (groups_of ev []) = urls" by (simp add: groups_concat)
    with ev spec_groups_sizes show ?thesis by metis
  qed
  with extract_batch_peak [OF idle le, of E urls] extract_retry_peak [OF idle le, of E urls]
  show ?thesis by blast
qed

lemma flaky_batch_trace:
  "trace (snd (extract_batch flaky [''u'', ''v'', ''w''] (M3U8Extractor (Some cfg2))))
     = [NewContext 0, NewContext 1, Start ''u'' 0, Start ''v'' 1, Join, Start ''w'' 0, Join]"
  by code_simp

theorem batch_bounded_concurrency_witness:
  "load_from 0 (trace (M3U8Extractor (Some cfg2))) = 0
   \<and> peak_from 0 (trace (M3U8Extractor (Some cfg2))) \<le> nat (concurrency (config (M3U8Extractor (Some cfg2))))
   \<and> peak_from 0 (trace (snd (extract_retry flaky [''u'', ''v'', ''w''] (M3U8Extractor (Some cfg2))))) \<le> 2
   \<and> groups_of [NewContext 0, NewContext 1, Start ''u'' 0, Start ''v'' 1, Join, Start ''w'' 0, Join] []
       = spec_groups 2 [''u'', ''v'', ''w'']"
  using batch_bounded_concurrency [of "M3U8Extractor (Some cfg2)" flaky "[''u'', ''v'', ''w'']"]
    pair_of_fst [OF flaky_first_pass]
  by (simp add: flaky_config flaky_batch_trace spec_groups.simps)

text \<open>
  C7. The invariant \<open>stats_inv\<close> (the average is the cumulative duration divided
  by the successful count when that count is positive, and 0 when it is 0)
  holds after construction and after \<^verbatim>\<open>reset_stats\<close>, and is preserved by every
  attempt and by a whole extraction with retry. A failed attempt only adds one
  to the failed count; a successful one adds one to the successful count, its
  duration to the cumulative duration, and recomputes the average.
\<close>

theorem stats_invariant:
  "stats_inv (stats (M3U8Extractor cfg))
   \<and> stats_inv (stats (reset_stats s))
   \<and> (stats_inv (stats s) \<longrightarrow>
        stats_inv (stats (snd (extract_single E url ctx s)))
        \<and> stats_inv (stats (snd (extract_retry E urls s))))
   \<and> (\<forall>r. fst (extract_single E url ctx s) = Inr r \<and> \<not> success r \<longrightarrow>
          stats (snd (extract_single E url ctx s)) = (stats s)\<lparr>failed := failed (stats s) + 1\<rparr>)
   \<and> (\<forall>r. fst (extract_single E url ctx s) = Inr r \<and> success r \<longrightarrow>
          stats (snd (extract_single E url ctx s))
            = (stats s)\<lparr>successful := successful (stats s) + 1,
                        total_time := total_time (stats s) + time r,
                        average_time := (total_time (stats s) + time r)
                                          / real (successful (stats s) + 1)\<rparr>)"
proof -
  have "stats_inv (stats (M3U8Extractor cfg))" "stats_inv (stats (reset_stats s))"
    by (simp_all add: M3U8Extractor_def reset_stats_def stats_inv_def)
  moreover have "stats (snd (extract_single E url ctx s)) = (stats s)\<lparr>failed := failed (stats s) + 1\<rparr>"
    if "fst (extract_single E url ctx s) = Inr r" "\<not> success r" for r
    using that
    by (auto simp: extract_single_def Let_def record_failure_def split: option.splits if_splits)
  moreover have "stats (snd (extract_single E url ctx s))
            = (stats s)\<lparr>successful := successful (stats s) + 1,
                        total_time := total_time (stats s) + time r,
                        average_time := (total_time (stats s) + time r)
                                          / real (successful (stats s) + 1)\<rparr>"
    if "fst (extract_single E url ctx s) = Inr r" "success r" for r
    using that
    by (auto simp: extract_single_def Let_def record_success_def split: option.splits if_splits)
  ultimately show ?thesis
    using extract_single_stats_inv [of s E url ctx] extract_retry_stats_inv [of s E urls]
    by blast
qed

theorem stats_invariant_witness:
  "stats_inv (stats (M3U8Extractor (Some cfg2)))
   \<and> stats_inv (stats (snd (extract_retry flaky [''u'', ''v'', ''w''] (M3U8Extractor (Some cfg2)))))"
  using stats_invariant [of "Some cfg2" "M3U8Extractor (Some cfg2)" flaky "''u''" 0 "[''u'', ''v'', ''w'']"]
  by simp

text \<open>
  C10. A successful retry result replaces every entry with its URL, whether
  the entry had failed or succeeded: after the merge every such position holds
  a successful retry result for that URL.
\<close>

theorem merge_replaces_every_match:
  assumes "rr \<in> set retry_results" "success rr" "i < length results"
    and "embedUrl (results ! i) = embedUrl rr"
  shows "replace_matching rr results ! i = rr
       \<and> merge_retries results retry_results ! i \<in> set retry_results
       \<and> success (merge_retries results retry_results ! i)
       \<and> embedUrl (merge_retries results retry_results ! i) = embedUrl rr"
  using assms merged_entry_replaced [of rr retry_results "results ! i"]
  by (simp add: replace_matching_map merge_retries_map merged_entry_url)

lemma duplicate_first_pass:
  "fst (extract_batch second_fails [''u'', ''u''] (M3U8Extractor (Some cfg2))) =
   Inr [\<lparr>embedUrl = ''u'', m3u8Url = Some ''X.M3U8'', success = True, time = 500, error = None\<rparr>,
        \<lparr>embedUrl = ''u'', m3u8Url = None, success = False, time = 1000,
          error = Some ''M3U8 URL not found within timeout''\<rparr>]"
  by code_simp

lemma duplicate_results:
  "fst (extract_retry second_fails [''u'', ''u''] (M3U8Extractor (Some cfg2))) =
   Inr [\<lparr>embedUrl = ''u'', m3u8Url = Some ''X.M3U8'', success = True, time = 502, error = None\<rparr>,
        \<lparr>embedUrl = ''u'', m3u8Url = Some ''X.M3U8'', success = True, time = 502, error = None\<rparr>]"
  by code_simp

theorem merge_replaces_every_match_witness:
  "success \<lparr>embedUrl = ''u'', m3u8Url = Some ''X.M3U8'', success = True, time = 500, error = None\<rparr>
   \<and> merge_retries
       [\<lparr>embedUrl = ''u'', m3u8Url = Some ''X.M3U8'', success = True, time = 500, error = None\<rparr>,
        \<lparr>embedUrl = ''u'', m3u8Url = None, success = False, time = 1000,
          error = Some ''M3U8 URL not found within timeout''\<rparr>]
       [\<lparr>embedUrl = ''u'', m3u8Url = Some ''X.M3U8'', success = True, time = 502, error = None\<rparr>] ! 0
     \<in> {\<lparr>embedUrl = ''u'', m3u8Url = Some ''X.M3U8'', success = True, time = 502, error = None\<rparr>}"
  using merge_replaces_every_match
    [of "\<lparr>embedUrl = ''u'', m3u8Url = Some ''X.M3U8'', success = True, time = 502, error = None\<rparr>"
        "[\<lparr>embedUrl = ''u'', m3u8Url = Some ''X.M3U8'', success = True, time = 502, error = None\<rparr>]"
        0
        "[\<lparr>embedUrl = ''u'', m3u8Url = Some ''X.M3U8'', success = True, time = 500, error = None\<rparr>,
          \<lparr>embedUrl = ''u'', m3u8Url = None, success = False, time = 1000,
            error = Some ''M3U8 URL not found within timeout''\<rparr>]"]
  by simp

end
